theory Spec2Isabelle
  imports Complex_Main "HOL-Library.Log_Nat"
begin

section \<open>Python primitives used by \<^verbatim>\<open>code.py\<close>\<close>

text \<open>
  The exceptions that can leave \<^verbatim>\<open>process_and_combine_images\<close>. \<^verbatim>\<open>IOError\<close> is Python 3's
  alias of \<^verbatim>\<open>OSError\<close>; Pillow's \<^verbatim>\<open>UnidentifiedImageError\<close> is a subclass of it. The payload of
  \<^verbatim>\<open>UnidentifiedImageError\<close> is the file object that \<^verbatim>\<open>Image.open\<close> was given, which is all the
  library formats into its message.
\<close>

type_synonym buffer = "nat list"

datatype exn =
    IOError
  | UnidentifiedImageError buffer
  | ZeroDivisionError
  | OverflowError
  | ValueError

text \<open>\<^verbatim>\<open>except IOError\<close> catches \<^verbatim>\<open>OSError\<close> and its subclasses.\<close>

fun isinstance_IOError :: "exn \<Rightarrow> bool" where
  "isinstance_IOError IOError = True"
| "isinstance_IOError (UnidentifiedImageError f) = True"
| "isinstance_IOError e = False"

subsection \<open>\<^verbatim>\<open>str\<close> of an integer\<close>

definition digit_char :: "nat \<Rightarrow> char" where
  "digit_char d = char_of (48 + d)"

fun digits_nat :: "nat \<Rightarrow> string" where
  "digits_nat n = (if n < 10 then [digit_char n] else digits_nat (n div 10) @ [digit_char (n mod 10)])"

definition py_str :: "int \<Rightarrow> string" where
  "py_str i = (if i < 0 then CHR ''-'' # digits_nat (nat (- i)) else digits_nat (nat i))"

subsection \<open>Binary64 floating point\<close>

text \<open>
  A finite Python \<^verbatim>\<open>float\<close> is the rational number it denotes (the sign of zero, which none
  of the operations below can observe, is dropped). Every arithmetic operation of the
  source computes the exact result and rounds it to the nearest binary64 number, ties to
  even: 53 significant bits, least exponent \<open>-1074\<close>, overflow from \<open>2 ^ 1024\<close> on.
  \<^const>\<open>bitlen\<close> is the number of binary digits of a positive integer.
\<close>

definition pow2 :: "int \<Rightarrow> rat" where
  "pow2 e = (if 0 \<le> e then 2 ^ nat e else 1 / 2 ^ nat (- e))"

definition floor_log2 :: "rat \<Rightarrow> int" where
  "floor_log2 q =
     (case quotient_of q of (a, b) \<Rightarrow>
        let k = bitlen a - bitlen b
        in if pow2 k \<le> q then k else k - 1)"

definition round_half_even :: "rat \<Rightarrow> int" where
  "round_half_even x =
     (let f = \<lfloor>x\<rfloor>; d = x - of_int f
      in if d < 1 / 2 then f else if 1 / 2 < d then f + 1 else if even f then f else f + 1)"

definition nearest_double :: "rat \<Rightarrow> rat" where
  "nearest_double q =
     (if q = 0 then 0
      else let a = \<bar>q\<bar>;
               e = max (floor_log2 a - 52) (- 1074);
               m = round_half_even (a / pow2 e)
           in sgn q * of_int m * pow2 e)"

datatype pyfloat = Finite rat | PosInf | NegInf

text \<open>
  The rounded value overflows when its magnitude reaches \<open>2 ^ 1024\<close>, that is when its
  binary exponent reaches 1024 (lemma \<open>fl_overflow\<close> below).
\<close>

definition fl :: "rat \<Rightarrow> pyfloat" where
  "fl q =
     (let r = nearest_double q
      in if r \<noteq> 0 \<and> 1024 \<le> floor_log2 \<bar>r\<bar> then (if 0 < r then PosInf else NegInf)
         else Finite r)"

text \<open>The literals \<^verbatim>\<open>0.1\<close> and \<^verbatim>\<open>1.5\<close> of the source, as the doubles the parser produces.\<close>

definition float_0_1 :: rat where
  "float_0_1 = 3602879701896397 / 36028797018963968"

definition float_1_5 :: rat where
  "float_1_5 = 3 / 2"

text \<open>
  \<^verbatim>\<open>float(n)\<close> for an \<^verbatim>\<open>int\<close>, as the mixed operations \<^verbatim>\<open>int * float\<close> and \<^verbatim>\<open>int - float\<close>
  perform it first: correctly rounded, \<^verbatim>\<open>OverflowError\<close> when out of range.
\<close>

definition int_to_float :: "int \<Rightarrow> exn + rat" where
  "int_to_float n = (case fl (of_int n) of Finite r \<Rightarrow> Inr r | PosInf \<Rightarrow> Inl OverflowError | NegInf \<Rightarrow> Inl OverflowError)"

text \<open>\<^verbatim>\<open>a / b\<close> on two \<^verbatim>\<open>int\<close>s: the correctly rounded quotient.\<close>

definition int_truediv :: "int \<Rightarrow> int \<Rightarrow> exn + rat" where
  "int_truediv a b =
     (if b = 0 then Inl ZeroDivisionError
      else case fl (of_int a / of_int b) of
             Finite r \<Rightarrow> Inr r | PosInf \<Rightarrow> Inl OverflowError | NegInf \<Rightarrow> Inl OverflowError)"

text \<open>\<^verbatim>\<open>n * x\<close> for an \<^verbatim>\<open>int\<close> and a finite \<^verbatim>\<open>float\<close>; the product itself overflows to infinity.\<close>

definition int_mul_float :: "int \<Rightarrow> rat \<Rightarrow> exn + pyfloat" where
  "int_mul_float n x = (case int_to_float n of Inl e \<Rightarrow> Inl e | Inr r \<Rightarrow> Inr (fl (r * x)))"

text \<open>\<^verbatim>\<open>int(x)\<close> truncates toward zero and refuses an infinity.\<close>

definition py_int :: "pyfloat \<Rightarrow> exn + int" where
  "py_int x =
     (case x of
        Finite q \<Rightarrow> Inr (if 0 \<le> q then \<lfloor>q\<rfloor> else \<lceil>q\<rceil>)
      | PosInf \<Rightarrow> Inl OverflowError
      | NegInf \<Rightarrow> Inl OverflowError)"

section \<open>\<^verbatim>\<open>to_letter\<close>\<close>

text \<open>In the first branch \<^verbatim>\<open>96 + num\<close> lies in \<open>97..101\<close>, where \<^verbatim>\<open>chr\<close> cannot raise.\<close>

definition to_letter :: "int \<Rightarrow> string" where
  "to_letter num = (if 1 \<le> num \<and> num \<le> 5 then [char_of (96 + num)] else py_str num)"

section \<open>Images, fonts and the library\<close>

text \<open>
  Fonts are Python objects. Pillow's font classes define no \<^verbatim>\<open>__eq__\<close>, so \<^verbatim>\<open>!=\<close> on two
  fonts is Python's default comparison, by object identity: a font carries the identity it
  was allocated with.
\<close>

datatype font_face = FreeType string int | DefaultFont

record font_obj =
  oid :: nat
  face :: font_face

definition font_ne :: "font_obj \<Rightarrow> font_obj \<Rightarrow> bool" where
  "font_ne f g = (oid f \<noteq> oid g)"

text \<open>
  A coordinate handed to \<^verbatim>\<open>draw.text\<close> is an \<^verbatim>\<open>int\<close> or a \<^verbatim>\<open>float\<close>. What is drawn depends on
  the face of the font, not on the identity of the font object.
\<close>

datatype pynum = PyInt int | PyFloat pyfloat

record text_call =
  text_x :: int
  text_y :: pynum
  text_str :: string
  text_fill :: string
  text_font :: font_face

text \<open>
  A resized image: its size, the upload its pixels were resampled from, and the
  \<^verbatim>\<open>draw.text\<close> calls made on it, in order.
\<close>

record image =
  width :: int
  height :: int
  pixels_of :: buffer
  texts :: "text_call list"

text \<open>
  The composite: its size, its fill colour, and the \<^verbatim>\<open>paste\<close> calls made on it, each with
  the upper left corner it was given, in order.
\<close>

record canvas =
  cwidth :: int
  cheight :: int
  background :: string
  pastes :: "(image \<times> int \<times> int) list"

text \<open>The PNG encoding of a composite, kept symbolic: the encoder is lossless.\<close>

datatype encoded = PNG canvas

text \<open>
  Pillow is not part of the repository. The model takes from it what the source cannot
  decide: which of the calls that receive computed arguments raise, and what they raise
  (\<open>raises\<close>), and the size of the bitmap an upload decodes to (\<open>decoded_size\<close>). A call
  that does not raise returns what Pillow documents: \<^verbatim>\<open>resize\<close> and \<^verbatim>\<open>Image.new\<close> an image of
  the requested size.
\<close>

datatype pil_call =
    Truetype string int
  | Open buffer
  | Resize "int \<times> int" "int \<times> int"
  | New "int \<times> int"
  | Save "int \<times> int"

record pil =
  raises :: "pil_call \<Rightarrow> exn option"
  decoded_size :: "buffer \<Rightarrow> int \<times> int"

text \<open>
  What a call of \<^verbatim>\<open>process_and_combine_images\<close> changes outside its result: the warnings
  Streamlit has shown, and the next free object identity.
\<close>

record world =
  next_oid :: nat
  warnings :: "string list"

definition st_warning :: "string \<Rightarrow> world \<Rightarrow> world" where
  "st_warning msg w = w\<lparr>warnings := warnings w @ [msg]\<rparr>"

definition new_font :: "font_face \<Rightarrow> world \<Rightarrow> font_obj \<times> world" where
  "new_font fc w = (\<lparr>oid = next_oid w, face = fc\<rparr>, w\<lparr>next_oid := Suc (next_oid w)\<rparr>)"

text \<open>\<^verbatim>\<open>ImageFont.load_default()\<close> builds a new font object at every call.\<close>

definition load_default :: "world \<Rightarrow> font_obj \<times> world" where
  "load_default w = new_font DefaultFont w"

section \<open>\<^verbatim>\<open>process_and_combine_images\<close>\<close>

subsection \<open>Step 1: font setup (lines 30 to 38)\<close>

definition font_setup :: "pil \<Rightarrow> int \<Rightarrow> world \<Rightarrow> (exn + font_obj \<times> int) \<times> world" where
  "font_setup lib target_height w =
     (case int_mul_float target_height float_0_1 of
        Inl e \<Rightarrow> (Inl e, w)
      | Inr x \<Rightarrow>
         (case py_int x of
            Inl e \<Rightarrow> (Inl e, w)
          | Inr font_size \<Rightarrow>
             (case raises lib (Truetype ''arial.ttf'' font_size) of
                None \<Rightarrow>
                  (let (font, w1) = new_font (FreeType ''arial.ttf'' font_size) w
                   in (Inr (font, font_size), w1))
              | Some e \<Rightarrow>
                  if isinstance_IOError e then
                    (let w1 = st_warning ''Arial font not found. Using default font for labels.'' w;
                         (font, w2) = load_default w1
                     in (Inr (font, 18), w2))
                  else (Inl e, w))))"

subsection \<open>Step 2: open, resize and label (lines 41 to 66)\<close>

text \<open>Lines 47 and 48: \<^verbatim>\<open>ratio = target_height / height; new_width = int(width * ratio)\<close>.\<close>

definition new_width :: "int \<Rightarrow> int \<Rightarrow> int \<Rightarrow> exn + int" where
  "new_width img_width img_height target_height =
     (case int_truediv target_height img_height of
        Inl e \<Rightarrow> Inl e
      | Inr ratio \<Rightarrow>
         (case int_mul_float img_width ratio of
            Inl e \<Rightarrow> Inl e
          | Inr p \<Rightarrow> py_int p))"

text \<open>\<^verbatim>\<open>target_height - text_y_offset\<close>, for an \<^verbatim>\<open>int\<close> on the left.\<close>

fun float_sub :: "rat \<Rightarrow> pyfloat \<Rightarrow> pyfloat" where
  "float_sub x (Finite y) = fl (x - y)"
| "float_sub x PosInf = NegInf"
| "float_sub x NegInf = PosInf"

fun int_sub :: "int \<Rightarrow> pynum \<Rightarrow> exn + pynum" where
  "int_sub a (PyInt b) = Inr (PyInt (a - b))"
| "int_sub a (PyFloat y) =
     (case int_to_float a of Inl e \<Rightarrow> Inl e | Inr x \<Rightarrow> Inr (PyFloat (float_sub x y)))"

text \<open>
  Line 59: the condition of the conditional expression is evaluated first, and loads a
  default font to compare with.
\<close>

definition text_y_offset :: "font_obj \<Rightarrow> int \<Rightarrow> world \<Rightarrow> (exn + pynum) \<times> world" where
  "text_y_offset font font_size w =
     (let (dflt, w1) = load_default w
      in if font_ne font dflt then
           (case int_mul_float font_size float_1_5 of
              Inl e \<Rightarrow> (Inl e, w1)
            | Inr v \<Rightarrow> (Inr (PyFloat v), w1))
         else (Inr (PyInt 25), w1))"

text \<open>The body of the loop, for the file at index \<open>i\<close> of \<^verbatim>\<open>enumerate\<close>.\<close>

definition label_image ::
  "pil \<Rightarrow> font_obj \<Rightarrow> int \<Rightarrow> int \<Rightarrow> nat \<Rightarrow> buffer \<Rightarrow> world \<Rightarrow> (exn + image) \<times> world" where
  "label_image lib font font_size target_height i file w =
     (case raises lib (Open file) of
        Some e \<Rightarrow> (Inl e, w)
      | None \<Rightarrow>
         (let (img_width, img_height) = decoded_size lib file
          in case new_width img_width img_height target_height of
               Inl e \<Rightarrow> (Inl e, w)
             | Inr new_w \<Rightarrow>
                (case raises lib (Resize (img_width, img_height) (new_w, target_height)) of
                   Some e \<Rightarrow> (Inl e, w)
                 | None \<Rightarrow>
                    (let img_resized = \<lparr>width = new_w, height = target_height,
                                          pixels_of = file, texts = []\<rparr>;
                         label_text = to_letter (int i + 1)
                     in case text_y_offset font font_size w of
                          (Inl e, w1) \<Rightarrow> (Inl e, w1)
                        | (Inr off, w1) \<Rightarrow>
                           (case int_sub target_height off of
                              Inl e \<Rightarrow> (Inl e, w1)
                            | Inr y \<Rightarrow>
                               (Inr (img_resized\<lparr>texts :=
                                   texts img_resized @
                                   [\<lparr>text_x = 10, text_y = y, text_str = label_text,
                                     text_fill = ''black'', text_font = face font\<rparr>]\<rparr>), w1))))))"

fun label_images ::
  "pil \<Rightarrow> font_obj \<Rightarrow> int \<Rightarrow> int \<Rightarrow> nat \<Rightarrow> buffer list \<Rightarrow> world \<Rightarrow> (exn + image list) \<times> world" where
  "label_images lib font font_size target_height i [] w = (Inr [], w)"
| "label_images lib font font_size target_height i (file # files) w =
     (case label_image lib font font_size target_height i file w of
        (Inl e, w1) \<Rightarrow> (Inl e, w1)
      | (Inr img, w1) \<Rightarrow>
         (case label_images lib font font_size target_height (Suc i) files w1 of
            (Inl e, w2) \<Rightarrow> (Inl e, w2)
          | (Inr images, w2) \<Rightarrow> (Inr (img # images), w2)))"

subsection \<open>Step 4: combine (lines 69 to 75)\<close>

definition paste :: "canvas \<Rightarrow> image \<Rightarrow> int \<times> int \<Rightarrow> canvas" where
  "paste c img xy = c\<lparr>pastes := pastes c @ [(img, xy)]\<rparr>"

fun paste_all :: "canvas \<Rightarrow> int \<Rightarrow> image list \<Rightarrow> canvas" where
  "paste_all combined_image current_x [] = combined_image"
| "paste_all combined_image current_x (img # images) =
     paste_all (paste combined_image img (current_x, 0)) (current_x + width img) images"

subsection \<open>The function\<close>

definition process_and_combine_images ::
  "pil \<Rightarrow> buffer list \<Rightarrow> int \<Rightarrow> world \<Rightarrow> (exn + encoded option) \<times> world" where
  "process_and_combine_images lib image_files target_height w =
     (if image_files = [] then (Inr None, w)
      else
        case font_setup lib target_height w of
          (Inl e, w1) \<Rightarrow> (Inl e, w1)
        | (Inr (font, font_size), w1) \<Rightarrow>
           (case label_images lib font font_size target_height 0 image_files w1 of
              (Inl e, w2) \<Rightarrow> (Inl e, w2)
            | (Inr images, w2) \<Rightarrow>
               (let total_width = sum_list (map width images)
                in case raises lib (New (total_width, target_height)) of
                     Some e \<Rightarrow> (Inl e, w2)
                   | None \<Rightarrow>
                      (let combined_image =
                             paste_all \<lparr>cwidth = total_width, cheight = target_height,
                                        background = ''white'', pastes = []\<rparr> 0 images
                       in case raises lib (Save (total_width, target_height)) of
                            Some e \<Rightarrow> (Inl e, w2)
                          | None \<Rightarrow> (Inr (Some (PNG combined_image)), w2)))))"

section \<open>A sample library\<close>

text \<open>
  For the closed instances below: a library in which a four-byte buffer \<open>[a, b, c, d]\<close>
  decodes to a bitmap \<open>256 * a + b\<close> wide and \<open>256 * c + d\<close> high, provided neither is 0,
  and every other buffer is refused; Arial is installed or not (\<open>arial\<close>). As Pillow does,
  it refuses with \<^verbatim>\<open>ValueError\<close> a font size below 1, a resize to a width or height below 1
  and a new image of negative width or height.
\<close>

fun sample_size :: "buffer \<Rightarrow> int \<times> int" where
  "sample_size [a, b, c, d] = (int (256 * a + b), int (256 * c + d))"
| "sample_size file = (0, 0)"

fun sample_raises :: "bool \<Rightarrow> pil_call \<Rightarrow> exn option" where
  "sample_raises arial (Truetype name pt) =
     (if pt < 1 then Some ValueError else if arial then None else Some IOError)"
| "sample_raises arial (Open file) =
     (if length file = 4 \<and> 0 < fst (sample_size file) \<and> 0 < snd (sample_size file) then None
      else Some (UnidentifiedImageError file))"
| "sample_raises arial (Resize old (w, h)) =
     (if w < 1 \<or> h < 1 then Some ValueError else None)"
| "sample_raises arial (New (w, h)) =
     (if w < 0 \<or> h < 0 then Some ValueError else None)"
| "sample_raises arial (Save sz) = None"

definition sample_pil :: "bool \<Rightarrow> pil" where
  "sample_pil arial = \<lparr>raises = sample_raises arial, decoded_size = sample_size\<rparr>"

definition world0 :: world where
  "world0 = \<lparr>next_oid = 0, warnings = []\<rparr>"

section \<open>Notions used to state the properties\<close>

text \<open>The x-offsets that the paste loop visits, starting from \<open>x\<close>.\<close>

fun offsets :: "int \<Rightarrow> image list \<Rightarrow> int list" where
  "offsets x [] = []"
| "offsets x (img # images) = x # offsets (x + width img) images"

text \<open>The exponent of the grid on which a positive number is rounded.\<close>

definition grid_exp :: "rat \<Rightarrow> int" where
  "grid_exp q = max (floor_log2 q - 52) (- 1074)"

text \<open>The number a string of decimal digits denotes.\<close>

definition decimal_of :: "string \<Rightarrow> int" where
  "decimal_of s = foldl (\<lambda>a c. 10 * a + (of_char c - 48)) 0 s"

text \<open>
  An upload that the call can process: it decodes, to a bitmap whose sizes are in the range
  of C \<^verbatim>\<open>int\<close>s, and the library performs the resize that is asked for it.
\<close>

definition processable :: "pil \<Rightarrow> int \<Rightarrow> buffer \<Rightarrow> bool" where
  "processable lib t f =
     (raises lib (Open f) = None \<and>
      (case decoded_size lib f of
         (iw, ih) \<Rightarrow>
           0 \<le> iw \<and> iw < 2 ^ 31 \<and> 0 < ih \<and> ih < 2 ^ 31 \<and>
           (case new_width iw ih t of
              Inl e \<Rightarrow> True
            | Inr n \<Rightarrow> raises lib (Resize (iw, ih) (n, t)) = None)))"

text \<open>The rescaled width of an upload: what lines 47 and 48 compute from its size.\<close>

definition rescaled_width :: "pil \<Rightarrow> int \<Rightarrow> buffer \<Rightarrow> int \<Rightarrow> bool" where
  "rescaled_width lib t f n =
     (new_width (fst (decoded_size lib f)) (snd (decoded_size lib f)) t = Inr n)"

text \<open>
  Sample uploads: a \<open>100 \<times> 200\<close> and a \<open>300 \<times> 100\<close> bitmap (the example of the
  specification), six \<open>1 \<times> 1\<close> bitmaps, and a \<open>300 \<times> 100\<close> bitmap followed by a
  \<open>1 \<times> 1000\<close> one.
\<close>

definition sample_files :: "buffer list" where
  "sample_files = [ [0, 100, 0, 200], [1, 44, 0, 100]]"

definition six_files :: "buffer list" where
  "six_files = replicate 6 [0, 1, 0, 1]"

definition thin_files :: "buffer list" where
  "thin_files = [ [1, 44, 0, 100], [0, 1, 3, 232]]"

section \<open>Facts about binary64 rounding\<close>

lemma pow2_powi: "pow2 e = 2 powi e"
  by (simp add: pow2_def power_int_def power_one_over inverse_eq_divide)

lemma pow2_pos: "0 < pow2 e"
  by (simp add: pow2_powi)

lemma pow2_add: "pow2 (a + b) = pow2 a * pow2 b"
  by (simp add: pow2_powi power_int_add)

lemma pow2_nat: "pow2 (int n) = 2 ^ n"
  by (simp add: pow2_def)

lemma pow2_mono: "a \<le> b \<Longrightarrow> pow2 a \<le> pow2 b"
  by (simp add: pow2_powi power_int_increasing)

lemma pow2_strict_mono: "a < b \<Longrightarrow> pow2 a < pow2 b"
  by (simp add: pow2_powi power_int_strict_increasing)

lemma pow2_less_iff: "pow2 a < pow2 b \<longleftrightarrow> a < b"
  by (metis pow2_mono pow2_strict_mono not_less)

lemma pow2_Suc: "pow2 (a + 1) = 2 * pow2 a"
proof -
  have "pow2 1 = 2" by (simp add: pow2_def)
  with pow2_add [of a 1] show ?thesis by simp
qed

lemma floor_log2_bounds:
  assumes "0 < q"
  shows "pow2 (floor_log2 q) \<le> q" and "q < pow2 (floor_log2 q + 1)"
proof -
  obtain a b where ab: "quotient_of q = (a, b)" by (cases "quotient_of q")
  then have b: "0 < b" and q: "q = of_int a / of_int b"
    by (rule quotient_of_denom_pos, rule quotient_of_div)
  with assms have a: "0 < a" by (simp add: zero_less_divide_iff)
  define la lb where "la = bitlen a" and "lb = bitlen b"
  from bitlen_bounds [OF a] have a1: "2 ^ nat (la - 1) \<le> a" and a2: "a < 2 ^ nat la"
    by (simp_all add: la_def)
  from bitlen_bounds [OF b] have b1: "2 ^ nat (lb - 1) \<le> b" and b2: "b < 2 ^ nat lb"
    by (simp_all add: lb_def)
  have la: "1 \<le> la" using a by (simp add: la_def bitlen_alt_def)
  have lb: "1 \<le> lb" using b by (simp add: lb_def bitlen_alt_def)
  have A1: "pow2 (la - 1) \<le> of_int a"
  proof -
    from a1 have "(of_int (2 ^ nat (la - 1)) :: rat) \<le> of_int a" by (simp only: of_int_le_iff)
    then show ?thesis using la by (simp add: pow2_def)
  qed
  have A2: "of_int a < pow2 la"
  proof -
    from a2 have "(of_int a :: rat) < of_int (2 ^ nat la)" by (simp only: of_int_less_iff)
    then show ?thesis using la by (simp add: pow2_def)
  qed
  have B1: "pow2 (lb - 1) \<le> of_int b"
  proof -
    from b1 have "(of_int (2 ^ nat (lb - 1)) :: rat) \<le> of_int b" by (simp only: of_int_le_iff)
    then show ?thesis using lb by (simp add: pow2_def)
  qed
  have B2: "of_int b < pow2 lb"
  proof -
    from b2 have "(of_int b :: rat) < of_int (2 ^ nat lb)" by (simp only: of_int_less_iff)
    then show ?thesis using lb by (simp add: pow2_def)
  qed
  have bq: "(0::rat) < of_int b" using b by simp
  have up: "q < pow2 (la - lb + 1)"
  proof -
    have "of_int a < pow2 (la - lb + 1) * pow2 (lb - 1)"
      using A2 by (simp flip: pow2_add)
    also have "\<dots> \<le> pow2 (la - lb + 1) * of_int b"
      using B1 pow2_pos [of "la - lb + 1"] by (simp add: mult_left_mono)
    finally show ?thesis using bq by (simp add: q pos_divide_less_eq)
  qed
  have lo: "pow2 (la - lb - 1) < q"
  proof -
    have "pow2 (la - lb - 1) * of_int b < pow2 (la - lb - 1) * pow2 lb"
      using B2 pow2_pos [of "la - lb - 1"] by (simp add: mult_strict_left_mono)
    also have "\<dots> = pow2 (la - 1)" by (simp flip: pow2_add)
    also have "\<dots> \<le> of_int a" by (rule A1)
    finally show ?thesis using bq by (simp add: q pos_less_divide_eq)
  qed
  have fl: "floor_log2 q = (if pow2 (la - lb) \<le> q then la - lb else la - lb - 1)"
    by (simp add: floor_log2_def ab la_def lb_def Let_def)
  show "pow2 (floor_log2 q) \<le> q"
    using lo by (simp add: fl)
  show "q < pow2 (floor_log2 q + 1)"
    using up by (simp add: fl not_le)
qed

lemma floor_log2_less: "0 < q \<Longrightarrow> q < pow2 n \<Longrightarrow> floor_log2 q < n"
  using floor_log2_bounds(1) [of q] pow2_less_iff [of "floor_log2 q" n] by simp

lemma floor_log2_ge: "0 < q \<Longrightarrow> pow2 n \<le> q \<Longrightarrow> n \<le> floor_log2 q"
  using floor_log2_bounds(2) [of q] pow2_less_iff [of n "floor_log2 q + 1"] by simp

lemma round_half_even_cases:
  "round_half_even x = \<lfloor>x\<rfloor> \<or> round_half_even x = \<lfloor>x\<rfloor> + 1"
  by (simp add: round_half_even_def Let_def)

lemma round_half_even_of_int: "round_half_even (of_int k) = k"
  by (simp add: round_half_even_def)

lemma round_half_even_ge:
  assumes "of_int k \<le> x"
  shows "k \<le> round_half_even x"
proof -
  from assms have "k \<le> \<lfloor>x\<rfloor>" by (simp add: le_floor_iff)
  with round_half_even_cases [of x] show ?thesis by auto
qed

lemma round_half_even_le:
  assumes "x \<le> of_int k"
  shows "round_half_even x \<le> k"
proof (cases "x = of_int k")
  case True
  then show ?thesis by (simp add: round_half_even_of_int)
next
  case False
  with assms have "x < of_int k" by simp
  then have "\<lfloor>x\<rfloor> < k" by (simp add: floor_less_iff)
  with round_half_even_cases [of x] show ?thesis by auto
qed

lemma round_half_even_error: "\<bar>of_int (round_half_even x) - x\<bar> \<le> 1 / 2"
proof -
  have "of_int \<lfloor>x\<rfloor> \<le> x" and "x < of_int \<lfloor>x\<rfloor> + 1" by linarith+
  then show ?thesis
    by (auto simp: round_half_even_def Let_def abs_le_iff)
qed

lemma nearest_double_pos:
  "0 < q \<Longrightarrow> nearest_double q = of_int (round_half_even (q / pow2 (grid_exp q))) * pow2 (grid_exp q)"
  by (simp add: nearest_double_def grid_exp_def Let_def)

lemma nearest_double_neg: "nearest_double (- q) = - nearest_double q"
  by (simp add: nearest_double_def Let_def)

lemma nearest_double_zero: "nearest_double 0 = 0"
  by (simp add: nearest_double_def)

lemma on_grid:
  assumes "e \<le> j"
  shows "of_int K * pow2 j / pow2 e = of_int (K * 2 ^ nat (j - e))"
    and "of_int (K * 2 ^ nat (j - e)) * pow2 e = of_int K * pow2 j"
proof -
  from assms have "pow2 j = pow2 (j - e) * pow2 e" by (simp flip: pow2_add)
  moreover from assms have "pow2 (j - e) = 2 ^ nat (j - e)" by (simp add: pow2_def)
  ultimately have *: "pow2 j = 2 ^ nat (j - e) * pow2 e" by simp
  show "of_int K * pow2 j / pow2 e = of_int (K * 2 ^ nat (j - e))"
    using pow2_pos [of e] by (simp add: *)
  show "of_int (K * 2 ^ nat (j - e)) * pow2 e = of_int K * pow2 j"
    by (simp add: *)
qed

lemma nearest_double_ge_grid:
  assumes "0 < q" and "grid_exp q \<le> j" and "of_int K * pow2 j \<le> q"
  shows "of_int K * pow2 j \<le> nearest_double q"
proof -
  let ?e = "grid_exp q"
  from assms(3) pow2_pos [of ?e] have "of_int K * pow2 j / pow2 ?e \<le> q / pow2 ?e"
    by (simp add: divide_right_mono)
  then have "of_int (K * 2 ^ nat (j - ?e)) \<le> q / pow2 ?e"
    by (simp only: on_grid(1) [OF assms(2)])
  then have "K * 2 ^ nat (j - ?e) \<le> round_half_even (q / pow2 ?e)"
    by (rule round_half_even_ge)
  then have "(of_int (K * 2 ^ nat (j - ?e)) :: rat) \<le> of_int (round_half_even (q / pow2 ?e))"
    by (simp only: of_int_le_iff)
  then have "of_int (K * 2 ^ nat (j - ?e)) * pow2 ?e \<le> nearest_double q"
    using pow2_pos [of ?e] by (simp add: nearest_double_pos [OF assms(1)] mult_right_mono)
  then show ?thesis by (simp only: on_grid(2) [OF assms(2)])
qed

lemma nearest_double_le_grid:
  assumes "0 < q" and "grid_exp q \<le> j" and "q \<le> of_int K * pow2 j"
  shows "nearest_double q \<le> of_int K * pow2 j"
proof -
  let ?e = "grid_exp q"
  from assms(3) pow2_pos [of ?e] have "q / pow2 ?e \<le> of_int K * pow2 j / pow2 ?e"
    by (simp add: divide_right_mono)
  then have "q / pow2 ?e \<le> of_int (K * 2 ^ nat (j - ?e))"
    by (simp only: on_grid(1) [OF assms(2)])
  then have "round_half_even (q / pow2 ?e) \<le> K * 2 ^ nat (j - ?e)"
    by (rule round_half_even_le)
  then have "(of_int (round_half_even (q / pow2 ?e)) :: rat) \<le> of_int (K * 2 ^ nat (j - ?e))"
    by (simp only: of_int_le_iff)
  then have "nearest_double q \<le> of_int (K * 2 ^ nat (j - ?e)) * pow2 ?e"
    using pow2_pos [of ?e] by (simp add: nearest_double_pos [OF assms(1)] mult_right_mono)
  then show ?thesis by (simp only: on_grid(2) [OF assms(2)])
qed

lemma nearest_double_nonneg: "0 \<le> q \<Longrightarrow> 0 \<le> nearest_double q"
proof (cases "q = 0")
  case True
  then show ?thesis by (simp add: nearest_double_zero)
next
  case False
  assume "0 \<le> q"
  with False have q: "0 < q" by simp
  from nearest_double_ge_grid [OF q order_refl, of 0] q show ?thesis by simp
qed

lemma nearest_double_error:
  assumes "0 < q"
  shows "\<bar>nearest_double q - q\<bar> \<le> pow2 (grid_exp q) / 2"
proof -
  let ?e = "grid_exp q"
  let ?m = "round_half_even (q / pow2 ?e)"
  have "nearest_double q - q = (of_int ?m - q / pow2 ?e) * pow2 ?e"
    using pow2_pos [of ?e] by (simp add: nearest_double_pos [OF assms] field_simps)
  then have "\<bar>nearest_double q - q\<bar> = \<bar>of_int ?m - q / pow2 ?e\<bar> * pow2 ?e"
    using pow2_pos [of ?e] by (simp add: abs_mult)
  also have "\<dots> \<le> (1 / 2) * pow2 ?e"
    using round_half_even_error [of "q / pow2 ?e"] pow2_pos [of ?e]
    by (intro mult_right_mono) simp_all
  finally show ?thesis by simp
qed

lemma nearest_double_abs: "\<bar>nearest_double q\<bar> = nearest_double \<bar>q\<bar>"
proof (cases "0 \<le> q")
  case True
  with nearest_double_nonneg [of q] show ?thesis by simp
next
  case False
  then have "0 \<le> - q" by simp
  from nearest_double_nonneg [OF this] False show ?thesis
    by (simp add: nearest_double_neg)
qed

lemma grid_exp_le:
  assumes "0 < q" and "q \<le> pow2 k" and "- 1074 \<le> k"
  shows "grid_exp q \<le> k"
proof -
  from assms(2) have "q < pow2 (k + 1)" using pow2_strict_mono [of k "k + 1"] by simp
  with assms(1) have "floor_log2 q < k + 1" by (rule floor_log2_less)
  with assms(3) show ?thesis by (simp add: grid_exp_def)
qed

lemma grid_exp_less:
  assumes "0 < q" and "q < pow2 k" and "- 1074 \<le> j" and "k - 53 \<le> j"
  shows "grid_exp q \<le> j"
proof -
  from assms(1,2) have "floor_log2 q < k" by (rule floor_log2_less)
  with assms(3,4) show ?thesis by (simp add: grid_exp_def)
qed

lemma nearest_double_bound:
  assumes "\<bar>q\<bar> \<le> pow2 k" and "- 1074 \<le> k"
  shows "\<bar>nearest_double q\<bar> \<le> pow2 k"
proof (cases "q = 0")
  case True
  then show ?thesis using pow2_pos [of k] by (simp add: nearest_double_zero)
next
  case False
  then have a: "0 < \<bar>q\<bar>" by simp
  from grid_exp_le [OF a assms] have "grid_exp \<bar>q\<bar> \<le> k" .
  from nearest_double_le_grid [OF a this, of 1] assms(1)
  show ?thesis by (simp add: nearest_double_abs)
qed

lemma fl_finite:
  assumes "\<bar>q\<bar> \<le> pow2 k" and "- 1074 \<le> k" and "k < 1024"
  shows "fl q = Finite (nearest_double q)"
proof -
  let ?r = "nearest_double q"
  have "\<not> (?r \<noteq> 0 \<and> 1024 \<le> floor_log2 \<bar>?r\<bar>)"
  proof
    assume h: "?r \<noteq> 0 \<and> 1024 \<le> floor_log2 \<bar>?r\<bar>"
    then have p: "0 < \<bar>?r\<bar>" by simp
    from nearest_double_bound [OF assms(1,2)] pow2_strict_mono [OF assms(3)]
    have "\<bar>?r\<bar> < pow2 1024" by simp
    with p have "floor_log2 \<bar>?r\<bar> < 1024" by (rule floor_log2_less)
    with h show False by simp
  qed
  then show ?thesis unfolding fl_def Let_def by (simp only: if_False)
qed

lemma nearest_double_exact:
  assumes "0 < q" and "q = of_int K * pow2 j" and "grid_exp q \<le> j"
  shows "nearest_double q = q"
proof -
  from nearest_double_ge_grid [OF assms(1,3), of K] assms(2) have "q \<le> nearest_double q" by simp
  moreover from nearest_double_le_grid [OF assms(1,3), of K] assms(2) have "nearest_double q \<le> q" by simp
  ultimately show ?thesis by simp
qed

text \<open>Multiples of \<open>2 ^ j\<close> (\<open>- 1074 \<le> j \<le> 0\<close>) below \<open>2 ^ (53 + j)\<close> in magnitude are doubles.\<close>

lemma nearest_double_exact_grid:
  assumes "\<bar>of_int K * pow2 j\<bar> < pow2 (53 + j)" and "- 1074 \<le> j"
  shows "nearest_double (of_int K * pow2 j) = of_int K * pow2 j"
proof -
  have pos: "nearest_double (of_int M * pow2 j) = of_int M * pow2 j"
    if "0 < M" and "of_int M * pow2 j < pow2 (53 + j)" for M
  proof -
    let ?q = "of_int M * pow2 j"
    from that(1) pow2_pos [of j] have q: "0 < ?q" by simp
    from q that(2) assms(2) have "grid_exp ?q \<le> j" by (rule grid_exp_less) simp
    with q show ?thesis by (intro nearest_double_exact [where K = M and j = j]) simp_all
  qed
  consider "K = 0" | "0 < K" | "K < 0" by linarith
  then show ?thesis
  proof cases
    case 1
    then show ?thesis by (simp add: nearest_double_zero)
  next
    case 2
    with assms(1) pow2_pos [of j] have "of_int K * pow2 j < pow2 (53 + j)"
      by (simp add: abs_mult)
    with 2 show ?thesis by (rule pos)
  next
    case 3
    then have m: "0 < - K" by simp
    from 3 assms(1) pow2_pos [of j] have "of_int (- K) * pow2 j < pow2 (53 + j)"
      by (simp add: abs_mult)
    from pos [OF m this] nearest_double_neg [of "of_int (- K) * pow2 j"] show ?thesis by simp
  qed
qed

lemma nearest_double_int:
  assumes "\<bar>n\<bar> < 2 ^ 53"
  shows "nearest_double (of_int n) = of_int n"
proof -
  from assms have "\<bar>of_int n :: rat\<bar> < of_int (2 ^ 53)"
    by (simp only: of_int_less_iff flip: of_int_abs)
  then have "\<bar>of_int n * pow2 0\<bar> < pow2 (53 + 0)" by (simp add: pow2_def)
  from nearest_double_exact_grid [OF this] show ?thesis by (simp add: pow2_def)
qed

lemma pow2_53: "pow2 53 = 2 ^ 53"
  by (simp add: pow2_def)

lemma int_to_float_exact:
  assumes "\<bar>n\<bar> < 2 ^ 53"
  shows "int_to_float n = Inr (of_int n)"
proof -
  from assms have "\<bar>of_int n :: rat\<bar> < of_int (2 ^ 53)"
    by (simp only: of_int_less_iff flip: of_int_abs)
  then have "\<bar>of_int n :: rat\<bar> \<le> pow2 53" by (simp add: pow2_53)
  then have "fl (of_int n) = Finite (nearest_double (of_int n))" by (rule fl_finite) simp_all
  with nearest_double_int [OF assms] show ?thesis by (simp add: int_to_float_def)
qed

lemma py_int_between:
  assumes "0 \<le> k" and "of_int k \<le> p" and "p < of_int k + 1"
  shows "py_int (Finite p) = Inr k"
proof -
  from assms(1,2) have "0 \<le> p" by (metis of_int_0_le_iff order_trans)
  moreover from assms(2,3) have "\<lfloor>p\<rfloor> = k" by (simp add: floor_unique)
  ultimately show ?thesis by (simp add: py_int_def)
qed

lemma pow2_neg4: "pow2 (- 4) = 1 / 16"
  by (simp add: pow2_def)

lemma pow2_31: "pow2 31 = 2 ^ 31"
  by (simp add: pow2_def)

text \<open>Line 30: \<^verbatim>\<open>int(target_height * 0.1)\<close> is \<open>target_height div 10\<close> on the range of C \<^verbatim>\<open>int\<close>s.\<close>

lemma font_size_div_10:
  assumes "0 \<le> t" and "t < 2 ^ 31"
  shows "\<exists>x. int_mul_float t float_0_1 = Inr (Finite x) \<and> py_int (Finite x) = Inr (t div 10)"
proof -
  let ?q = "of_int t * float_0_1"
  let ?k = "t div 10"
  from assms have "int_to_float t = Inr (of_int t)" by (intro int_to_float_exact) simp
  then have m: "int_mul_float t float_0_1 = Inr (fl ?q)" by (simp add: int_mul_float_def)
  have t0: "(0::rat) \<le> of_int t" using assms(1) by simp
  have "(of_int t :: rat) < of_int (2 ^ 31)" using assms(2) by (simp only: of_int_less_iff)
  then have t1: "(of_int t :: rat) < 2 ^ 31" by simp
  have k0: "0 \<le> ?k" using assms(1) by simp
  have "t = 10 * ?k + t mod 10" by simp
  moreover have "0 \<le> t mod 10" and "t mod 10 < 10" by simp_all
  ultimately have "10 * ?k \<le> t" and "t \<le> 10 * ?k + 9" by linarith+
  then have "(of_int (10 * ?k) :: rat) \<le> of_int t" and "(of_int t :: rat) \<le> of_int (10 * ?k + 9)"
    by (simp_all only: of_int_le_iff)
  then have k1: "10 * (of_int ?k :: rat) \<le> of_int t" and k2: "(of_int t :: rat) \<le> 10 * of_int ?k + 9"
    by simp_all
  have q0: "0 \<le> ?q" using t0 by (simp add: float_0_1_def)
  have q1: "?q < 2 ^ 31" using t0 t1 by (simp add: float_0_1_def)
  have lo: "of_int ?k \<le> ?q" using k1 t0 by (simp add: float_0_1_def)
  have hi: "?q \<le> of_int ?k + 15 / 16" using k1 k2 t1 by (simp add: float_0_1_def)
  from q0 q1 have "\<bar>?q\<bar> \<le> pow2 31" by (simp add: pow2_31)
  then have f: "fl ?q = Finite (nearest_double ?q)" by (rule fl_finite) simp_all
  have "of_int ?k \<le> nearest_double ?q \<and> nearest_double ?q < of_int ?k + 1"
  proof (cases "?q = 0")
    case True
    with lo k0 have "?k = 0" by simp
    moreover from True have "nearest_double ?q = 0" by (simp only: nearest_double_zero)
    ultimately show ?thesis by simp
  next
    case False
    with q0 have q: "0 < ?q" by (simp only: order_less_le) simp
    from q1 have "?q < pow2 31" by (simp add: pow2_31)
    with q have g: "grid_exp ?q \<le> - 4" by (rule grid_exp_less) simp_all
    from lo have "of_int (16 * ?k) * pow2 (- 4) \<le> ?q" by (simp add: pow2_neg4)
    from nearest_double_ge_grid [OF q g this] have a: "of_int ?k \<le> nearest_double ?q"
      by (simp add: pow2_neg4)
    from hi have "?q \<le> of_int (16 * ?k + 15) * pow2 (- 4)" by (simp add: pow2_neg4)
    from nearest_double_le_grid [OF q g this] have "nearest_double ?q \<le> of_int ?k + 15 / 16"
      by (simp add: pow2_neg4)
    with a show ?thesis by simp
  qed
  with k0 have "py_int (Finite (nearest_double ?q)) = Inr ?k" by (intro py_int_between) simp_all
  with m f show ?thesis by simp
qed

lemma pow2_neg1: "pow2 (- 1) = 1 / 2"
  by (simp add: pow2_def)

lemma pow2_52: "pow2 52 = 2 ^ 52"
  by (simp add: pow2_def)

lemma fl_half_int:
  assumes "\<bar>n\<bar> < 2 ^ 40"
  shows "fl (of_int n / 2) = Finite (of_int n / 2)"
proof -
  have "\<bar>of_int n :: rat\<bar> < of_int (2 ^ 40)"
    using assms by (simp only: of_int_less_iff flip: of_int_abs)
  then have b: "\<bar>of_int n :: rat\<bar> < 2 ^ 40" by simp
  then have "\<bar>of_int n * pow2 (- 1)\<bar> < pow2 (53 + - 1)" by (simp add: pow2_neg1 pow2_52)
  then have "nearest_double (of_int n * pow2 (- 1)) = of_int n * pow2 (- 1)"
    by (rule nearest_double_exact_grid) simp
  then have e: "nearest_double (of_int n / 2) = of_int n / 2" by (simp add: pow2_neg1)
  from b have "\<bar>of_int n / 2 :: rat\<bar> \<le> pow2 52" by (simp add: pow2_52)
  then have "fl (of_int n / 2) = Finite (nearest_double (of_int n / 2))" by (rule fl_finite) simp_all
  with e show ?thesis by simp
qed

text \<open>Lines 59 and 61: \<^verbatim>\<open>font_size * 1.5\<close> and \<^verbatim>\<open>target_height - text_y_offset\<close> are exact.\<close>

lemma text_offset_exact:
  assumes "0 \<le> fs" and "fs < 2 ^ 31"
  shows "int_mul_float fs float_1_5 = Inr (Finite (3 / 2 * of_int fs))"
proof -
  from assms have "int_to_float fs = Inr (of_int fs)" by (intro int_to_float_exact) simp
  moreover from assms have "fl (of_int (3 * fs) / 2) = Finite (of_int (3 * fs) / 2)"
    by (intro fl_half_int) simp
  ultimately show ?thesis by (simp add: int_mul_float_def float_1_5_def mult.commute)
qed

lemma text_y_exact:
  assumes "0 \<le> fs" and "fs < 2 ^ 31" and "0 \<le> t" and "t < 2 ^ 31"
  shows "float_sub (of_int t) (Finite (3 / 2 * of_int fs)) = Finite (of_int t - 3 / 2 * of_int fs)"
proof -
  from assms have "fl (of_int (2 * t - 3 * fs) / 2) = Finite (of_int (2 * t - 3 * fs) / 2)"
    by (intro fl_half_int) simp
  moreover have "(of_int (2 * t - 3 * fs) / 2 :: rat) = of_int t - 3 / 2 * of_int fs"
    by (simp add: field_simps)
  ultimately have "fl (of_int t - 3 / 2 * of_int fs) = Finite (of_int t - 3 / 2 * of_int fs)"
    by (simp only:)
  then show ?thesis by (simp only: float_sub.simps)
qed

lemma pow2_16: "pow2 16 = 2 ^ 16"
  by (simp add: pow2_def)

lemma pow2_32: "pow2 32 = 2 ^ 32"
  by (simp add: pow2_def)

lemma pow2_neg16: "pow2 (- 16) = 1 / 2 ^ 16"
  by (simp add: pow2_def)

lemma pow2_neg21: "pow2 (- 21) = 1 / 2 ^ 21"
  by (simp add: pow2_def)

lemma pow2_neg52: "pow2 (- 52) = 1 / 2 ^ 52"
  by (simp add: pow2_def)

lemma rat_of_int_less_pow: "n < 2 ^ m \<Longrightarrow> (of_int n :: rat) < 2 ^ m"
proof -
  assume "n < 2 ^ m"
  then have "(of_int n :: rat) < of_int (2 ^ m)" by (simp only: of_int_less_iff)
  then show ?thesis by simp
qed

text \<open>Line 47: the quotient is rounded with a relative error of at most \<open>2 ^ - 53\<close>.\<close>

lemma ratio_error:
  assumes "0 < h" and "h < 2 ^ 16" and "0 < t" and "t < 2 ^ 16"
  shows "\<exists>r. int_truediv t h = Inr r \<and> 0 < r \<and>
           \<bar>r - of_int t / of_int h\<bar> \<le> of_int t / of_int h / 2 ^ 53"
proof -
  let ?q = "of_int t / of_int h :: rat"
  have H0: "(1::rat) \<le> of_int h" using assms(1) by simp
  have H1: "(of_int h :: rat) < 2 ^ 16" using assms(2) by (rule rat_of_int_less_pow)
  have T0: "(1::rat) \<le> of_int t" using assms(3) by simp
  have T1: "(of_int t :: rat) < 2 ^ 16" using assms(4) by (rule rat_of_int_less_pow)
  have q0: "0 < ?q" using H0 T0 by simp
  have "?q \<le> of_int t" using H0 T0 by (simp add: pos_divide_le_eq mult_le_cancel_left1)
  with T1 have q1: "?q < 2 ^ 16" by simp
  have "1 / 2 ^ 16 \<le> 1 / (of_int h :: rat)" using H0 H1 by (simp add: frac_le)
  also have "\<dots> \<le> ?q" using H0 T0 by (simp add: divide_right_mono)
  finally have q2: "pow2 (- 16) \<le> ?q" by (simp add: pow2_neg16)
  from q0 q1 have "\<bar>?q\<bar> \<le> pow2 16" by (simp add: pow2_16)
  then have f: "fl ?q = Finite (nearest_double ?q)" by (rule fl_finite) simp_all
  from floor_log2_ge [OF q0 q2] have "grid_exp ?q = floor_log2 ?q + (- 52)"
    by (simp add: grid_exp_def)
  then have "pow2 (grid_exp ?q) = pow2 (floor_log2 ?q) * pow2 (- 52)" by (simp only: pow2_add)
  also have "\<dots> \<le> ?q * pow2 (- 52)"
    using floor_log2_bounds(1) [OF q0] pow2_pos [of "- 52"] by (simp only: mult_right_mono less_imp_le)
  finally have "pow2 (grid_exp ?q) / 2 \<le> ?q / 2 ^ 53" by (simp add: pow2_neg52)
  with nearest_double_error [OF q0] have e: "\<bar>nearest_double ?q - ?q\<bar> \<le> ?q / 2 ^ 53" by simp
  have "?q / 2 ^ 53 < ?q" using q0 by simp
  with e have "0 < nearest_double ?q" by linarith
  with e f assms(1) show ?thesis by (simp add: int_truediv_def)
qed

text \<open>
  Lines 47 and 48 on sizes below \<open>2 ^ 16\<close>: the new width is the exact quotient rounded
  down, except that an exact quotient that is an integer may come out one too small.
\<close>

lemma new_width_floor:
  assumes "0 \<le> w" and "w < 2 ^ 16" and "0 < h" and "h < 2 ^ 16" and "0 < t" and "t < 2 ^ 16"
  shows "\<exists>n. new_width w h t = Inr n \<and> 0 \<le> n \<and>
           (n = w * t div h \<or> (h dvd w * t \<and> n = w * t div h - 1))"
proof -
  let ?q = "of_int t / of_int h :: rat"
  from ratio_error [OF assms(3-6)] obtain r where
    r: "int_truediv t h = Inr r" and r0: "0 < r" and re: "\<bar>r - ?q\<bar> \<le> ?q / 2 ^ 53"
    by blast
  from assms(1,2) have wf: "int_to_float w = Inr (of_int w)" by (intro int_to_float_exact) simp
  let ?P = "of_int w * r"
  from r wf have nw: "new_width w h t = py_int (fl ?P)"
    by (simp add: new_width_def int_mul_float_def)
  show ?thesis
  proof (cases "w = 0")
    case True
    have "\<bar>0::rat\<bar> \<le> pow2 0" by (simp add: pow2_def)
    then have "fl 0 = Finite (nearest_double 0)" by (rule fl_finite) simp_all
    with True nw show ?thesis by (simp add: nearest_double_zero py_int_def)
  next
    case False
    with assms(1) have w0: "0 < w" by simp
    let ?k = "w * t div h"
    let ?m = "w * t mod h"
    define X :: rat where "X = of_int (w * t) / of_int h"
    define P :: rat where "P = of_int w * r"
    define K :: rat where "K = of_int ?k"
    define M :: rat where "M = of_int ?m / of_int h"
    define d :: rat where "d = 1 / 2 ^ 21"
    have W0: "(1::rat) \<le> of_int w" using w0 by simp
    have H0: "(1::rat) \<le> of_int h" using assms(3) by simp
    have H1: "(of_int h :: rat) < 2 ^ 16" using assms(4) by (rule rat_of_int_less_pow)
    have T0: "(1::rat) \<le> of_int t" using assms(5) by simp
    have Xq: "X = of_int w * ?q" by (simp add: X_def)
    have P0: "0 < P" using W0 r0 by (simp add: P_def)
    have wt: "w * t \<le> (2 ^ 16 - 1) * (2 ^ 16 - 1)"
      using assms by (intro mult_mono) simp_all
    have "(of_int (w * t) :: rat) \<le> of_int ((2 ^ 16 - 1) * (2 ^ 16 - 1))"
      using wt by (simp only: of_int_le_iff)
    then have WT: "(of_int (w * t) :: rat) \<le> 2 ^ 32 - 2 ^ 17 + 1" by simp
    have A0: "(0::rat) < of_int (w * t)" using w0 assms(5) by simp
    then have X0: "0 < X" using H0 by (simp add: X_def)
    have "X \<le> of_int (w * t) / 1"
      unfolding X_def using H0 A0 by (intro divide_left_mono) simp_all
    with WT have X1: "X \<le> 2 ^ 32 - 2 ^ 17 + 1" by simp
    have "P - X = of_int w * (r - ?q)" by (simp only: P_def Xq right_diff_distrib)
    then have "\<bar>P - X\<bar> = \<bar>of_int w\<bar> * \<bar>r - ?q\<bar>" by (simp only: abs_mult)
    then have "\<bar>P - X\<bar> = of_int w * \<bar>r - ?q\<bar>" using W0 by simp
    also have "\<dots> \<le> of_int w * (?q / 2 ^ 53)"
      using re W0 by (intro mult_left_mono) simp_all
    also have "\<dots> = X / 2 ^ 53" by (simp add: Xq)
    also have "\<dots> < d" using X1 by (simp add: d_def)
    finally have "\<bar>P - X\<bar> < d" .
    then have PX: "P < X + d" "X - d < P" by (simp_all add: abs_less_iff)
    have d0: "0 < d" and d1: "d + d \<le> 1 / 2 ^ 16" and d2: "d < 1" by (simp_all add: d_def)
    from PX X1 d2 have P1: "P < 2 ^ 32" by simp
    with P0 have "\<bar>P\<bar> \<le> pow2 32" by (simp add: pow2_32)
    then have f: "fl P = Finite (nearest_double P)" by (rule fl_finite) simp_all
    from P1 have "P < pow2 32" by (simp add: pow2_32)
    with P0 have g: "grid_exp P \<le> - 21" by (rule grid_exp_less) simp_all
    then have g0: "grid_exp P \<le> 0" by simp
    have k0: "0 \<le> ?k" using assms(1,3,5) by (simp add: pos_imp_zdiv_nonneg_iff)
    have m0: "0 \<le> ?m" and m1: "?m < h" using assms(3) by simp_all
    have "(of_int (?k * h + ?m) :: rat) = of_int ?k * of_int h + of_int ?m"
      by (simp only: of_int_add of_int_mult)
    moreover have "?k * h + ?m = w * t" by simp
    ultimately have E: "(of_int (w * t) :: rat) = K * of_int h + of_int ?m"
      by (simp only: K_def)
    have "X = (K * of_int h + of_int ?m) / of_int h" by (simp only: X_def E)
    also have "\<dots> = K * of_int h / of_int h + M" by (simp only: add_divide_distrib M_def)
    also have "K * of_int h / of_int h = K" using H0 by simp
    finally have X: "X = K + M" .
    have M1: "M \<le> 1 - 1 / 2 ^ 16"
    proof -
      from m1 have "?m \<le> h - 1" by simp
      then have "(of_int ?m :: rat) \<le> of_int (h - 1)" by (simp only: of_int_le_iff)
      then have "(of_int ?m :: rat) \<le> of_int h - 1" by simp
      then have "M \<le> (of_int h - 1) / of_int h"
        unfolding M_def using H0 by (intro divide_right_mono) simp_all
      also have "\<dots> = 1 - 1 / of_int h" using H0 by (simp add: field_simps)
      also have "\<dots> \<le> 1 - 1 / 2 ^ 16" using H0 H1 by (simp add: frac_le)
      finally show ?thesis .
    qed
    have grid: "of_int n * pow2 (- 21) = of_int n * d" for n :: int
      by (simp add: pow2_neg21 d_def)
    have hi: "nearest_double P \<le> K + 1 - d"
    proof -
      from X PX M1 d1 have "P \<le> K + 1 - d" by simp
      moreover have "K + 1 - d = of_int ((?k + 1) * 2 ^ 21 - 1) * d"
        by (simp add: K_def d_def field_simps)
      ultimately have "P \<le> of_int ((?k + 1) * 2 ^ 21 - 1) * pow2 (- 21)"
        by (simp only: grid)
      from nearest_double_le_grid [OF P0 g this] \<open>K + 1 - d = of_int ((?k + 1) * 2 ^ 21 - 1) * d\<close>
      show ?thesis by (simp only: grid)
    qed
    with d0 have hi': "nearest_double P < of_int ?k + 1" by (simp add: K_def)
    have lo: "of_int n \<le> nearest_double P" if "of_int n \<le> P" for n :: int
    proof -
      from that have "of_int n * pow2 0 \<le> P" by (simp add: pow2_def)
      from nearest_double_ge_grid [OF P0 g0 this] show ?thesis by (simp add: pow2_def)
    qed
    from nw f have nw': "new_width w h t = py_int (Finite (nearest_double P))"
      by (simp add: P_def)
    show ?thesis
    proof (cases "?m = 0")
      case True
      then have dv: "h dvd w * t" by (simp add: dvd_eq_mod_eq_0)
      from True X have Xk: "X = K" by (simp add: M_def)
      with X0 have "0 < ?k" by (simp add: K_def)
      then have k1: "0 \<le> ?k - 1" by simp
      have "(of_int (?k - 1) :: rat) = K - 1" by (simp add: K_def)
      with Xk PX d2 have "of_int (?k - 1) \<le> P" by simp
      then have lo1: "of_int (?k - 1) \<le> nearest_double P" by (rule lo)
      show ?thesis
      proof (cases "of_int ?k \<le> nearest_double P")
        case True
        with k0 hi' have "py_int (Finite (nearest_double P)) = Inr ?k" by (intro py_int_between)
        with nw' k0 show ?thesis by simp
      next
        case False
        then have "nearest_double P < of_int (?k - 1) + 1" by simp
        with k1 lo1 have "py_int (Finite (nearest_double P)) = Inr (?k - 1)" by (intro py_int_between)
        with nw' dv k1 show ?thesis by simp
      qed
    next
      case False
      with m0 have "1 \<le> ?m" by simp
      then have "(of_int 1 :: rat) \<le> of_int ?m" by (simp only: of_int_le_iff)
      then have "1 / of_int h \<le> M"
        unfolding M_def using H0 by (intro divide_right_mono) simp_all
      moreover have "1 / 2 ^ 16 \<le> 1 / (of_int h :: rat)" using H0 H1 by (simp add: frac_le)
      ultimately have "1 / 2 ^ 16 \<le> M" by simp
      with X PX d0 d1 have "K \<le> P" by simp
      then have "of_int ?k \<le> P" by (simp only: K_def)
      then have "of_int ?k \<le> nearest_double P" by (rule lo)
      with k0 hi' have "py_int (Finite (nearest_double P)) = Inr ?k" by (intro py_int_between)
      with nw' k0 show ?thesis by simp
    qed
  qed
qed

section \<open>Facts about the loop body and the loops\<close>

lemma text_y_offset_fresh:
  assumes "oid font < next_oid w"
  shows "text_y_offset font fs w =
     (case int_mul_float fs float_1_5 of
        Inl e \<Rightarrow> (Inl e, w\<lparr>next_oid := Suc (next_oid w)\<rparr>)
      | Inr v \<Rightarrow> (Inr (PyFloat v), w\<lparr>next_oid := Suc (next_oid w)\<rparr>))"
  using assms
  by (simp add: text_y_offset_def load_default_def new_font_def font_ne_def split: sum.splits)

lemma text_y_offset_world:
  assumes "text_y_offset font fs w = (r, w')"
  shows "w' = w\<lparr>next_oid := Suc (next_oid w)\<rparr>"
  using assms
  by (auto simp: text_y_offset_def load_default_def new_font_def split: sum.splits if_splits)

lemma label_image_world:
  assumes "label_image lib font fs t i file w = (r, w')"
  shows "warnings w' = warnings w" and "next_oid w \<le> next_oid w'"
  using assms
  by (auto simp: label_image_def Let_def split: option.splits sum.splits prod.splits
           dest!: text_y_offset_world)

lemma label_image_Inr:
  assumes "label_image lib font fs t i file w = (Inr img, w')"
  shows "raises lib (Open file) = None"
    and "new_width (fst (decoded_size lib file)) (snd (decoded_size lib file)) t = Inr (width img)"
    and "raises lib (Resize (decoded_size lib file) (width img, t)) = None"
    and "height img = t"
    and "pixels_of img = file"
    and "\<exists>y. texts img = [\<lparr>text_x = 10, text_y = y, text_str = to_letter (int i + 1),
                               text_fill = ''black'', text_font = face font\<rparr>]"
  using assms
  by (auto simp: label_image_def Let_def split: option.splits sum.splits prod.splits)

lemma label_images_world:
  "label_images lib font fs t i files w = (r, w') \<Longrightarrow>
     warnings w' = warnings w \<and> next_oid w \<le> next_oid w'"
proof (induction files arbitrary: i w r w')
  case Nil
  then show ?case by simp
next
  case (Cons f files)
  obtain r1 w1 where h: "label_image lib font fs t i f w = (r1, w1)"
    by (cases "label_image lib font fs t i f w")
  note hw = label_image_world [OF h]
  show ?case
  proof (cases r1)
    case (Inl e)
    with Cons.prems h hw show ?thesis by simp
  next
    case (Inr img)
    obtain r2 w2 where t: "label_images lib font fs t (Suc i) files w1 = (r2, w2)"
      by (cases "label_images lib font fs t (Suc i) files w1")
    from Cons.IH [OF t] have "warnings w2 = warnings w1" "next_oid w1 \<le> next_oid w2" by simp_all
    moreover from Cons.prems h Inr t have "w' = w2" by (cases r2) simp_all
    ultimately show ?thesis using hw by simp
  qed
qed

lemma label_images_Cons_Inr:
  assumes "label_images lib font fs t i (file # files) w = (Inr imgs, w')"
  obtains img rest w1 where "label_image lib font fs t i file w = (Inr img, w1)"
    and "label_images lib font fs t (Suc i) files w1 = (Inr rest, w')"
    and "imgs = img # rest"
  using assms by (auto split: prod.splits sum.splits)

lemma label_images_length:
  "label_images lib font fs t i files w = (Inr imgs, w') \<Longrightarrow> length imgs = length files"
proof (induction files arbitrary: i w imgs)
  case Nil
  then show ?case by simp
next
  case (Cons f files)
  from Cons.prems show ?case
    by (elim label_images_Cons_Inr) (simp add: Cons.IH)
qed

lemma label_images_all:
  "label_images lib font fs t i files w = (Inr imgs, w') \<Longrightarrow>
     list_all2 (\<lambda>file img.
        raises lib (Open file) = None \<and>
        new_width (fst (decoded_size lib file)) (snd (decoded_size lib file)) t = Inr (width img) \<and>
        raises lib (Resize (decoded_size lib file) (width img, t)) = None \<and>
        height img = t \<and> pixels_of img = file) files imgs"
proof (induction files arbitrary: i w imgs)
  case Nil
  then show ?case by simp
next
  case (Cons f files)
  from Cons.prems show ?case
    by (elim label_images_Cons_Inr) (simp add: Cons.IH label_image_Inr)
qed

lemma label_images_texts:
  "label_images lib font fs t i files w = (Inr imgs, w') \<Longrightarrow> k < length files \<Longrightarrow>
     \<exists>y. texts (imgs ! k) = [\<lparr>text_x = 10, text_y = y, text_str = to_letter (int (i + k) + 1),
                                 text_fill = ''black'', text_font = face font\<rparr>]"
proof (induction files arbitrary: i w imgs k)
  case Nil
  then show ?case by simp
next
  case (Cons f files)
  from Cons.prems(1) obtain img rest w1 where
    h: "label_image lib font fs t i f w = (Inr img, w1)" and
    r: "label_images lib font fs t (Suc i) files w1 = (Inr rest, w')" and
    e: "imgs = img # rest"
    by (rule label_images_Cons_Inr)
  show ?case
  proof (cases k)
    case 0
    with e label_image_Inr(6) [OF h] show ?thesis by simp
  next
    case (Suc j)
    with Cons.prems(2) have "j < length files" by simp
    from Cons.IH [OF r this] Suc e show ?thesis by simp
  qed
qed

lemma paste_all_fields:
  "cwidth (paste_all c x images) = cwidth c \<and> cheight (paste_all c x images) = cheight c \<and>
   background (paste_all c x images) = background c"
  by (induction images arbitrary: c x) (simp_all add: paste_def)

lemma paste_all_pastes:
  "pastes (paste_all c x images) = pastes c @ zip images (map (\<lambda>x. (x, 0)) (offsets x images))"
  by (induction images arbitrary: c x) (simp_all add: paste_def)

lemma length_offsets: "length (offsets x images) = length images"
  by (induction images arbitrary: x) simp_all

lemma offsets_nth:
  "k < length images \<Longrightarrow> offsets x images ! k = x + sum_list (map width (take k images))"
proof (induction images arbitrary: x k)
  case Nil
  then show ?case by simp
next
  case (Cons img images)
  show ?case
  proof (cases k)
    case 0
    then show ?thesis by simp
  next
    case (Suc j)
    with Cons.prems have "j < length images" by simp
    from Cons.IH [OF this, of "x + width img"] Suc show ?thesis by simp
  qed
qed

lemma paste_all_nth:
  assumes "k < length images"
  shows "pastes (paste_all \<lparr>cwidth = W, cheight = H, background = bg, pastes = []\<rparr> 0 images) ! k =
           (images ! k, sum_list (map width (take k images)), 0)"
  using assms by (simp add: paste_all_pastes length_offsets offsets_nth)

lemma process_Inr:
  assumes "process_and_combine_images lib files t w = (Inr (Some (PNG c)), w')"
  obtains font fs w1 imgs where
    "files \<noteq> []" and
    "font_setup lib t w = (Inr (font, fs), w1)" and
    "label_images lib font fs t 0 files w1 = (Inr imgs, w')" and
    "raises lib (New (sum_list (map width imgs), t)) = None" and
    "raises lib (Save (sum_list (map width imgs), t)) = None" and
    "c = paste_all \<lparr>cwidth = sum_list (map width imgs), cheight = t,
                     background = ''white'', pastes = []\<rparr> 0 imgs"
  using assms
  by (auto simp: process_and_combine_images_def Let_def
           split: if_splits prod.splits sum.splits option.splits)

lemma process_success:
  assumes "files \<noteq> []" and
    "font_setup lib t w = (Inr (font, fs), w1)" and
    "label_images lib font fs t 0 files w1 = (Inr imgs, w')" and
    "raises lib (New (sum_list (map width imgs), t)) = None" and
    "raises lib (Save (sum_list (map width imgs), t)) = None"
  shows "process_and_combine_images lib files t w =
    (Inr (Some (PNG (paste_all \<lparr>cwidth = sum_list (map width imgs), cheight = t,
                     background = ''white'', pastes = []\<rparr> 0 imgs))), w')"
  using assms by (simp add: process_and_combine_images_def)

lemma pow2_62: "pow2 62 = 2 ^ 62"
  by (simp add: pow2_def)

text \<open>Lines 47 and 48 raise nothing on sizes in the range of C \<^verbatim>\<open>int\<close>s.\<close>

lemma new_width_total:
  assumes "0 \<le> w" and "w < 2 ^ 31" and "0 < h" and "h < 2 ^ 31" and "0 < t" and "t < 2 ^ 31"
  shows "\<exists>n. new_width w h t = Inr n \<and> 0 \<le> n"
proof -
  let ?q = "of_int t / of_int h :: rat"
  have W0: "(0::rat) \<le> of_int w" using assms(1) by simp
  have W1: "(of_int w :: rat) < 2 ^ 31" using assms(2) by (rule rat_of_int_less_pow)
  have H0: "(1::rat) \<le> of_int h" using assms(3) by simp
  have T0: "(0::rat) < of_int t" using assms(5) by simp
  have T1: "(of_int t :: rat) < 2 ^ 31" using assms(6) by (rule rat_of_int_less_pow)
  have q0: "0 < ?q" using H0 T0 by simp
  have "?q \<le> of_int t / 1" using H0 T0 by (intro divide_left_mono) simp_all
  with T1 q0 have q1: "\<bar>?q\<bar> \<le> pow2 31" by (simp add: pow2_31)
  then have "fl ?q = Finite (nearest_double ?q)" by (rule fl_finite) simp_all
  with assms(3) have r: "int_truediv t h = Inr (nearest_double ?q)" by (simp add: int_truediv_def)
  define r where "r = nearest_double ?q"
  from nearest_double_bound [OF q1] have r1: "\<bar>r\<bar> \<le> 2 ^ 31" by (simp add: r_def pow2_31)
  from q0 have r0: "0 \<le> r" unfolding r_def by (intro nearest_double_nonneg) simp
  from assms(1,2) have wf: "int_to_float w = Inr (of_int w)" by (intro int_to_float_exact) simp
  define P where "P = of_int w * r"
  have P0: "0 \<le> P" using W0 r0 by (simp add: P_def)
  have "of_int w * r \<le> 2 ^ 31 * 2 ^ 31" using W0 W1 r0 r1 by (intro mult_mono) simp_all
  with P0 have "\<bar>P\<bar> \<le> pow2 62" by (simp add: P_def pow2_62)
  then have "fl P = Finite (nearest_double P)" by (rule fl_finite) simp_all
  with r wf have "new_width w h t = py_int (Finite (nearest_double P))"
    by (simp add: new_width_def int_mul_float_def P_def r_def)
  moreover from P0 have "0 \<le> nearest_double P" by (rule nearest_double_nonneg)
  ultimately show ?thesis by (simp add: py_int_def)
qed

text \<open>Font setup, completely: what is requested, and what each answer of the library leads to.\<close>

lemma font_setup_eq:
  assumes "0 \<le> t" and "t < 2 ^ 31"
  shows "font_setup lib t w =
    (case raises lib (Truetype ''arial.ttf'' (t div 10)) of
       None \<Rightarrow> (Inr (\<lparr>oid = next_oid w, face = FreeType ''arial.ttf'' (t div 10)\<rparr>, t div 10),
                 w\<lparr>next_oid := Suc (next_oid w)\<rparr>)
     | Some e \<Rightarrow>
         if isinstance_IOError e
         then (Inr (\<lparr>oid = next_oid w, face = DefaultFont\<rparr>, 18),
               w\<lparr>next_oid := Suc (next_oid w),
                 warnings := warnings w @ [''Arial font not found. Using default font for labels.'']\<rparr>)
         else (Inl e, w))"
proof -
  from font_size_div_10 [OF assms] obtain x where
    "int_mul_float t float_0_1 = Inr (Finite x)" and "py_int (Finite x) = Inr (t div 10)" by blast
  then show ?thesis
    by (simp add: font_setup_def new_font_def load_default_def st_warning_def split: option.splits)
qed

lemma int_sub_exact:
  assumes "0 \<le> fs" and "fs < 2 ^ 31" and "0 \<le> t" and "t < 2 ^ 31"
  shows "int_sub t (PyFloat (Finite (3 / 2 * of_int fs))) =
           Inr (PyFloat (Finite (of_int t - 3 / 2 * of_int fs)))"
proof -
  from assms(3,4) have "int_to_float t = Inr (of_int t)" by (intro int_to_float_exact) simp
  with text_y_exact [OF assms] show ?thesis by simp
qed

text \<open>The loop body, completely, for a font made by the font setup.\<close>

lemma label_image_eq:
  assumes "oid font < next_oid w" and "0 \<le> fs" and "fs < 2 ^ 31" and "0 \<le> t" and "t < 2 ^ 31"
  shows "label_image lib font fs t i f w =
    (case raises lib (Open f) of
       Some e \<Rightarrow> (Inl e, w)
     | None \<Rightarrow>
        (case new_width (fst (decoded_size lib f)) (snd (decoded_size lib f)) t of
           Inl e \<Rightarrow> (Inl e, w)
         | Inr n \<Rightarrow>
            (case raises lib (Resize (decoded_size lib f) (n, t)) of
               Some e \<Rightarrow> (Inl e, w)
             | None \<Rightarrow>
                (Inr \<lparr>width = n, height = t, pixels_of = f,
                      texts = [\<lparr>text_x = 10,
                                text_y = PyFloat (Finite (of_int t - 3 / 2 * of_int fs)),
                                text_str = to_letter (int i + 1), text_fill = ''black'',
                                text_font = face font\<rparr>]\<rparr>,
                 w\<lparr>next_oid := Suc (next_oid w)\<rparr>))))"
proof -
  have off: "text_y_offset font fs w =
      (Inr (PyFloat (Finite (3 / 2 * of_int fs))), w\<lparr>next_oid := Suc (next_oid w)\<rparr>)"
    by (simp add: text_y_offset_fresh [OF assms(1)] text_offset_exact [OF assms(2,3)])
  show ?thesis
    unfolding label_image_def Let_def off prod.case sum.case int_sub_exact [OF assms(2-5)]
    by (simp split: option.splits sum.splits prod.splits)
qed

lemma label_image_processable:
  assumes "oid font < next_oid w" and "0 \<le> fs" and "fs < 2 ^ 31" and "0 < t" and "t < 2 ^ 31"
    and "processable lib t f"
  shows "\<exists>img. label_image lib font fs t i f w = (Inr img, w\<lparr>next_oid := Suc (next_oid w)\<rparr>)"
proof -
  obtain iw ih where d: "decoded_size lib f = (iw, ih)" by (cases "decoded_size lib f")
  with assms(6) have o: "raises lib (Open f) = None"
    and b: "0 \<le> iw" "iw < 2 ^ 31" "0 < ih" "ih < 2 ^ 31"
    and r: "case new_width iw ih t of Inl e \<Rightarrow> True
            | Inr n \<Rightarrow> raises lib (Resize (iw, ih) (n, t)) = None"
    by (simp_all add: processable_def)
  from new_width_total [OF b assms(4,5)] obtain n where n: "new_width iw ih t = Inr n" by blast
  with r have "raises lib (Resize (iw, ih) (n, t)) = None" by simp
  with o n d assms(1-5) show ?thesis by (simp add: label_image_eq)
qed

lemma label_images_processable:
  assumes "oid font < next_oid w" and "0 \<le> fs" and "fs < 2 ^ 31" and "0 < t" and "t < 2 ^ 31"
    and "\<forall>f\<in>set files. processable lib t f"
  shows "\<exists>imgs w'. label_images lib font fs t i files w = (Inr imgs, w')"
  using assms(1,6)
proof (induction files arbitrary: i w)
  case Nil
  then show ?case by simp
next
  case (Cons f files)
  from Cons.prems(2) have "processable lib t f" by simp
  from label_image_processable [OF Cons.prems(1) assms(2-5) this] obtain img where
    a: "label_image lib font fs t i f w = (Inr img, w\<lparr>next_oid := Suc (next_oid w)\<rparr>)" by blast
  from Cons.prems have "oid font < next_oid (w\<lparr>next_oid := Suc (next_oid w)\<rparr>)"
    and "\<forall>f\<in>set files. processable lib t f" by simp_all
  from Cons.IH [OF this] obtain imgs w' where
    "label_images lib font fs t (Suc i) files (w\<lparr>next_oid := Suc (next_oid w)\<rparr>) = (Inr imgs, w')"
    by blast
  with a show ?case by simp
qed

lemma font_setup_ok:
  assumes "0 < t" and "t < 2 ^ 31"
    and "\<forall>e. raises lib (Truetype ''arial.ttf'' (t div 10)) = Some e \<longrightarrow> isinstance_IOError e"
  shows "\<exists>font fs w1. font_setup lib t w = (Inr (font, fs), w1) \<and> oid font < next_oid w1 \<and>
            0 \<le> fs \<and> fs < 2 ^ 31"
proof -
  from assms(1,2) have d: "0 \<le> t div 10" "t div 10 < 2 ^ 31" by simp_all
  from assms(1,2) have e: "0 \<le> t" by simp
  show ?thesis
  proof (cases "raises lib (Truetype ''arial.ttf'' (t div 10))")
    case None
    with d show ?thesis by (simp add: font_setup_eq [OF e assms(2)])
  next
    case (Some e')
    with assms(3) have "isinstance_IOError e'" by simp
    with Some show ?thesis by (simp add: font_setup_eq [OF e assms(2)])
  qed
qed

lemma process_nth:
  assumes "process_and_combine_images lib files t w = (Inr (Some (PNG c)), w')"
  obtains font fs w1 imgs where
    "font_setup lib t w = (Inr (font, fs), w1)" and
    "label_images lib font fs t 0 files w1 = (Inr imgs, w')" and
    "length imgs = length files" and
    "map fst (pastes c) = imgs" and
    "cwidth c = sum_list (map width imgs)" and "cheight c = t"
proof -
  from assms obtain font fs w1 imgs where
    f: "font_setup lib t w = (Inr (font, fs), w1)" and
    l: "label_images lib font fs t 0 files w1 = (Inr imgs, w')" and
    c: "c = paste_all \<lparr>cwidth = sum_list (map width imgs), cheight = t,
                       background = ''white'', pastes = []\<rparr> 0 imgs"
    by (rule process_Inr)
  from c have m: "map fst (pastes c) = imgs" by (simp add: paste_all_pastes length_offsets)
  from c have d: "cwidth c = sum_list (map width imgs)" "cheight c = t"
    by (simp_all add: paste_all_fields)
  show ?thesis by (rule that [OF f l label_images_length [OF l] m d])
qed

lemma label_image_not_open:
  "raises lib (Open f) = Some e \<Longrightarrow> label_image lib font fs t i f w = (Inl e, w)"
  by (simp add: label_image_def)

lemma label_images_append:
  assumes "label_images lib font fs t i pre w = (Inr imgs, w1)"
  shows "label_images lib font fs t i (pre @ rest) w =
    (case label_images lib font fs t (i + length pre) rest w1 of
       (Inl e, w2) \<Rightarrow> (Inl e, w2)
     | (Inr others, w2) \<Rightarrow> (Inr (imgs @ others), w2))"
  using assms
proof (induction pre arbitrary: i w imgs)
  case Nil
  then show ?case by (simp split: prod.splits sum.splits)
next
  case (Cons f pre)
  from Cons.prems obtain img tl w0 where
    a: "label_image lib font fs t i f w = (Inr img, w0)" and
    b: "label_images lib font fs t (Suc i) pre w0 = (Inr tl, w1)" and
    c: "imgs = img # tl"
    by (rule label_images_Cons_Inr)
  from Cons.IH [OF b] a c show ?case
    by (simp split: prod.splits sum.splits)
qed

lemma process_Inr_None:
  "process_and_combine_images lib files t w = (Inr None, w') \<Longrightarrow> files = []"
  by (auto simp: process_and_combine_images_def Let_def
           split: if_splits prod.splits sum.splits option.splits)

section \<open>Independence of the starting world\<close>

lemma font_setup_Inl:
  "font_setup lib t w = (Inl e, w') \<Longrightarrow> w' = w \<and> font_setup lib t v = (Inl e, v)"
  by (auto simp: font_setup_def Let_def load_default_def new_font_def
           split: sum.splits option.splits if_splits prod.splits)

lemma font_setup_Inr:
  assumes "font_setup lib t w = (Inr (font, fs), w')"
  shows "oid font < next_oid w'"
    and "\<exists>font' v'. font_setup lib t v = (Inr (font', fs), v') \<and> face font' = face font \<and>
            oid font' < next_oid v'"
  using assms
  by (auto simp: font_setup_def Let_def load_default_def new_font_def st_warning_def
           split: sum.splits option.splits if_splits prod.splits)

lemma label_image_indep:
  assumes "oid font < next_oid w" and "oid font' < next_oid v" and "face font = face font'"
  shows "fst (label_image lib font fs t i file w) = fst (label_image lib font' fs t i file v)"
  using assms
  by (simp add: label_image_def Let_def text_y_offset_fresh
           split: option.splits sum.splits prod.splits)

lemma label_images_indep:
  assumes "oid font < next_oid w" and "oid font' < next_oid v" and "face font = face font'"
  shows "fst (label_images lib font fs t i files w) = fst (label_images lib font' fs t i files v)"
  using assms
proof (induction files arbitrary: i w v)
  case Nil
  then show ?case by simp
next
  case (Cons f files)
  obtain r1 w1 where a: "label_image lib font fs t i f w = (r1, w1)"
    by (cases "label_image lib font fs t i f w")
  obtain r2 v1 where b: "label_image lib font' fs t i f v = (r2, v1)"
    by (cases "label_image lib font' fs t i f v")
  from label_image_indep [OF Cons.prems] a b have r: "r2 = r1" by (metis fst_conv)
  from label_image_world(2) [OF a] Cons.prems(1) have w1: "oid font < next_oid w1" by simp
  from label_image_world(2) [OF b] Cons.prems(2) have v1: "oid font' < next_oid v1" by simp
  note ih = Cons.IH [OF w1 v1 Cons.prems(3), of "Suc i"]
  show ?case
  proof (cases r1)
    case (Inl e)
    with a b r show ?thesis by simp
  next
    case (Inr img)
    obtain r3 w2 where c: "label_images lib font fs t (Suc i) files w1 = (r3, w2)"
      by (cases "label_images lib font fs t (Suc i) files w1")
    obtain r4 v2 where d: "label_images lib font' fs t (Suc i) files v1 = (r4, v2)"
      by (cases "label_images lib font' fs t (Suc i) files v1")
    from ih c d have "r4 = r3" by simp
    with a b c d r Inr show ?thesis by (simp split: sum.splits)
  qed
qed

section \<open>Where the labels are drawn\<close>

lemma label_images_texts_exact:
  assumes "0 \<le> fs" and "fs < 2 ^ 31" and "0 \<le> t" and "t < 2 ^ 31"
  shows "oid font < next_oid w \<Longrightarrow> label_images lib font fs t i files w = (Inr imgs, w') \<Longrightarrow>
    k < length files \<Longrightarrow>
    texts (imgs ! k) =
      [\<lparr>text_x = 10, text_y = PyFloat (Finite (of_int t - 3 / 2 * of_int fs)),
        text_str = to_letter (int (i + k) + 1), text_fill = ''black'', text_font = face font\<rparr>]"
proof (induction files arbitrary: i w imgs k)
  case Nil
  then show ?case by simp
next
  case (Cons f files)
  from Cons.prems(2) obtain img rest w1 where
    h: "label_image lib font fs t i f w = (Inr img, w1)" and
    r: "label_images lib font fs t (Suc i) files w1 = (Inr rest, w')" and
    e: "imgs = img # rest"
    by (rule label_images_Cons_Inr)
  from h have i: "texts img =
      [\<lparr>text_x = 10, text_y = PyFloat (Finite (of_int t - 3 / 2 * of_int fs)),
        text_str = to_letter (int i + 1), text_fill = ''black'', text_font = face font\<rparr>]"
    and w1: "w1 = w\<lparr>next_oid := Suc (next_oid w)\<rparr>"
    by (auto simp: label_image_eq [OF Cons.prems(1) assms] split: option.splits sum.splits)
  show ?case
  proof (cases k)
    case 0
    with e i show ?thesis by simp
  next
    case (Suc j)
    with Cons.prems(3) have j: "j < length files" by simp
    from Cons.prems(1) w1 have "oid font < next_oid w1" by simp
    from Cons.IH [OF this r j] Suc e show ?thesis by simp
  qed
qed

text \<open>
  Where the labels are drawn, for every target height: at x = 10 and
  \<open>y = target_height - 1.5 * font_size\<close>, with \<open>font_size = target_height div 10\<close> for the
  loaded font and \<open>font_size = 18\<close> for the default font. The comparison of line 59 is
  between the font in use and a default font made for the comparison, two distinct
  objects in either case, so that the offset 25 is never taken.
\<close>

lemma label_position:
  assumes "process_and_combine_images lib files t w = (Inr (Some (PNG c)), w')"
    and "0 < t" and "t < 2 ^ 31" and "k < length files"
  shows "\<exists>fs fc. texts (fst (pastes c ! k)) =
      [\<lparr>text_x = 10, text_y = PyFloat (Finite (of_int t - 3 / 2 * of_int fs)),
        text_str = to_letter (int k + 1), text_fill = ''black'', text_font = fc\<rparr>] \<and>
      (raises lib (Truetype ''arial.ttf'' (t div 10)) = None \<and> fs = t div 10 \<and>
         fc = FreeType ''arial.ttf'' (t div 10) \<or>
       raises lib (Truetype ''arial.ttf'' (t div 10)) \<noteq> None \<and> fs = 18 \<and> fc = DefaultFont)"
proof -
  from assms(1) obtain font fs w1 imgs where
    f: "font_setup lib t w = (Inr (font, fs), w1)" and
    l: "label_images lib font fs t 0 files w1 = (Inr imgs, w')" and
    n: "length imgs = length files" and p: "map fst (pastes c) = imgs"
    by (rule process_nth)
  from assms(2) have t0: "0 \<le> t" by simp
  from assms(2,3) have d: "0 \<le> t div 10" "t div 10 < 2 ^ 31" by simp_all
  from f have cases: "raises lib (Truetype ''arial.ttf'' (t div 10)) = None \<and> fs = t div 10 \<and>
         face font = FreeType ''arial.ttf'' (t div 10) \<or>
       raises lib (Truetype ''arial.ttf'' (t div 10)) \<noteq> None \<and> fs = 18 \<and> face font = DefaultFont"
    by (auto simp: font_setup_eq [OF t0 assms(3)] split: option.splits if_splits)
  with d have b: "0 \<le> fs" "fs < 2 ^ 31" by auto
  from font_setup_Inr(1) [OF f] have o: "oid font < next_oid w1" .
  from p n assms(4) have "fst (pastes c ! k) = imgs ! k" by (metis length_map nth_map)
  with label_images_texts_exact [OF b t0 assms(3) o l assms(4)] cases show ?thesis by auto
qed

section \<open>Decimal digits\<close>

declare digits_nat.simps [simp del]

lemma decimal_of_snoc: "decimal_of (s @ [c]) = 10 * decimal_of s + (of_char c - 48)"
  by (simp add: decimal_of_def)

lemma of_char_digit_char: "d < 10 \<Longrightarrow> (of_char (digit_char d) :: int) = 48 + int d"
proof -
  assume "d < 10"
  then have "(of_char (digit_char d) :: nat) = 48 + d" by (simp add: digit_char_def)
  then have "int (of_char (digit_char d)) = int (48 + d)" by (rule arg_cong)
  then show ?thesis by (simp add: of_nat_of_char)
qed

lemma decimal_of_digits_nat: "decimal_of (digits_nat n) = int n"
proof (induction n rule: digits_nat.induct)
  case (1 n)
  show ?case
  proof (cases "n < 10")
    case True
    then show ?thesis by (subst digits_nat.simps) (simp add: decimal_of_def of_char_digit_char)
  next
    case False
    with 1 have ih: "decimal_of (digits_nat (n div 10)) = int (n div 10)" by simp
    from False have "digits_nat n = digits_nat (n div 10) @ [digit_char (n mod 10)]"
      by (subst digits_nat.simps) simp
    then have "decimal_of (digits_nat n) = 10 * int (n div 10) + int (n mod 10)"
      by (simp only: decimal_of_snoc ih) (simp add: of_char_digit_char)
    also have "\<dots> = int n" by presburger
    finally show ?thesis .
  qed
qed

lemma decimal_of_py_str: "0 \<le> i \<Longrightarrow> decimal_of (py_str i) = i"
  by (simp add: py_str_def decimal_of_digits_nat)

lemma to_letter_cases:
  "to_letter i = (if 1 \<le> i \<and> i \<le> 5 then [char_of (of_char CHR ''a'' + i - 1)] else py_str i)"
  by (simp add: to_letter_def add.commute)

section \<open>When the call returns a composite\<close>

lemma composite_dims:
  assumes "process_and_combine_images lib files t w = (Inr (Some (PNG c)), w')"
  shows "cheight c = t"
    and "\<exists>ns. list_all2 (rescaled_width lib t) files ns \<and>
           cwidth c = sum_list ns \<and> map (width \<circ> fst) (pastes c) = ns"
proof -
  from assms obtain font fs w1 imgs where
    l: "label_images lib font fs t 0 files w1 = (Inr imgs, w')" and
    p: "map fst (pastes c) = imgs" and
    d: "cwidth c = sum_list (map width imgs)" "cheight c = t"
    by (rule process_nth)
  show "cheight c = t" by (rule d(2))
  from label_images_all [OF l]
  have "list_all2 (rescaled_width lib t) files (map width imgs)"
    by (simp add: list_all2_conv_all_nth rescaled_width_def)
  moreover from p have "map (width \<circ> fst) (pastes c) = map width imgs"
    by (simp flip: map_map)
  ultimately show "\<exists>ns. list_all2 (rescaled_width lib t) files ns \<and>
           cwidth c = sum_list ns \<and> map (width \<circ> fst) (pastes c) = ns"
    using d(1) by blast
qed

lemma process_total:
  assumes "files \<noteq> []" and "0 < t" and "t < 2 ^ 31"
    and "\<forall>f\<in>set files. processable lib t f"
    and "\<forall>e. raises lib (Truetype ''arial.ttf'' (t div 10)) = Some e \<longrightarrow> isinstance_IOError e"
    and "\<forall>W\<ge>0. raises lib (New (W, t)) = None \<and> raises lib (Save (W, t)) = None"
  shows "\<exists>c w' ns. process_and_combine_images lib files t w = (Inr (Some (PNG c)), w') \<and>
           cheight c = t \<and> list_all2 (rescaled_width lib t) files ns \<and>
           cwidth c = sum_list ns \<and> map (width \<circ> fst) (pastes c) = ns"
proof -
  from font_setup_ok [OF assms(2,3,5)] obtain font fs w1 where
    fs: "font_setup lib t w = (Inr (font, fs), w1)" and o: "oid font < next_oid w1"
    and b: "0 \<le> fs" "fs < 2 ^ 31" by blast
  from label_images_processable [OF o b assms(2,3,4)] obtain imgs w' where
    l: "label_images lib font fs t 0 files w1 = (Inr imgs, w')" by blast
  let ?W = "sum_list (map width imgs)"
  let ?c = "paste_all \<lparr>cwidth = ?W, cheight = t, background = ''white'', pastes = []\<rparr> 0 imgs"
  note a = label_images_all [OF l]
  have r: "list_all2 (rescaled_width lib t) files (map width imgs)"
    using a by (simp add: list_all2_conv_all_nth rescaled_width_def)
  have nn: "0 \<le> width img" if "img \<in> set imgs" for img
  proof -
    from that obtain k where k: "k < length imgs" and i: "img = imgs ! k"
      by (auto simp: in_set_conv_nth)
    from a k have p: "files ! k \<in> set files"
      and n: "new_width (fst (decoded_size lib (files ! k))) (snd (decoded_size lib (files ! k))) t
              = Inr (width (imgs ! k))"
      by (simp_all add: list_all2_conv_all_nth)
    obtain iw ih where d: "decoded_size lib (files ! k) = (iw, ih)"
      by (cases "decoded_size lib (files ! k)")
    from assms(4) p d have "0 \<le> iw" "iw < 2 ^ 31" "0 < ih" "ih < 2 ^ 31"
      by (auto simp: processable_def)
    from new_width_total [OF this assms(2,3)] n d i show ?thesis by auto
  qed
  then have "0 \<le> ?W" by (intro sum_list_nonneg) auto
  with assms(6) have "raises lib (New (?W, t)) = None" and "raises lib (Save (?W, t)) = None"
    by simp_all
  from process_success [OF assms(1) fs l this]
  have "process_and_combine_images lib files t w = (Inr (Some (PNG ?c)), w')" .
  moreover have "cheight ?c = t" and "cwidth ?c = sum_list (map width imgs)"
    by (simp_all add: paste_all_fields)
  moreover have "map (width \<circ> fst) (pastes ?c) = map width imgs"
    by (simp add: paste_all_pastes length_offsets flip: map_map)
  ultimately show ?thesis using r by blast
qed

section \<open>The sample uploads\<close>

lemma sample_process_total:
  assumes "files \<noteq> []" and "\<forall>f\<in>set files. processable (sample_pil arial) 400 f"
  shows "\<exists>c w'. process_and_combine_images (sample_pil arial) files 400 world0 =
           (Inr (Some (PNG c)), w')"
proof -
  have "\<forall>e. raises (sample_pil arial) (Truetype ''arial.ttf'' (400 div 10)) = Some e
          \<longrightarrow> isinstance_IOError e"
    by (simp add: sample_pil_def)
  moreover have "\<forall>W\<ge>0. raises (sample_pil arial) (New (W, 400)) = None \<and>
                   raises (sample_pil arial) (Save (W, 400)) = None"
    by (simp add: sample_pil_def)
  ultimately show ?thesis
    using process_total [OF assms(1) _ _ assms(2), of world0] by auto
qed

lemma sample_new_widths:
  "new_width 100 200 400 = Inr 200" "new_width 300 100 400 = Inr 1200"
  "new_width 1 1000 400 = Inr 0" "new_width 1 1 400 = Inr 400"
  by code_simp+

lemma sample_sizes:
  "decoded_size (sample_pil arial) [0, 100, 0, 200] = (100, 200)"
  "decoded_size (sample_pil arial) [1, 44, 0, 100] = (300, 100)"
  "decoded_size (sample_pil arial) [0, 1, 3, 232] = (1, 1000)"
  "decoded_size (sample_pil arial) [0, 1, 0, 1] = (1, 1)"
  by (simp_all add: sample_pil_def)

lemma sample_opens:
  "raises (sample_pil arial) (Open [0, 100, 0, 200]) = None"
  "raises (sample_pil arial) (Open [1, 44, 0, 100]) = None"
  "raises (sample_pil arial) (Open [0, 1, 3, 232]) = None"
  "raises (sample_pil arial) (Open [0, 1, 0, 1]) = None"
  by (simp_all add: sample_pil_def)

lemma sample_resizes:
  "raises (sample_pil arial) (Resize old (200, 400)) = None"
  "raises (sample_pil arial) (Resize old (1200, 400)) = None"
  "raises (sample_pil arial) (Resize old (400, 400)) = None"
  "raises (sample_pil arial) (Resize old (0, 400)) = Some ValueError"
  by (simp_all add: sample_pil_def)

lemma sample_processable:
  "processable (sample_pil arial) 400 [0, 100, 0, 200]"
  "processable (sample_pil arial) 400 [1, 44, 0, 100]"
  "processable (sample_pil arial) 400 [0, 1, 0, 1]"
  by (simp_all add: processable_def sample_sizes sample_new_widths sample_opens sample_resizes
        del: One_nat_def)

lemma sample_files_run:
  "\<exists>c w'. process_and_combine_images (sample_pil arial) sample_files 400 world0 =
           (Inr (Some (PNG c)), w')"
  by (rule sample_process_total) (simp_all add: sample_files_def sample_processable del: One_nat_def)

lemma six_files_run:
  "\<exists>c w'. process_and_combine_images (sample_pil arial) six_files 400 world0 =
           (Inr (Some (PNG c)), w')"
  by (rule sample_process_total) (simp_all add: six_files_def sample_processable del: One_nat_def)

section \<open>The claims\<close>

text \<open>
  Claim C1. Every composite that the function returns has the target height, and its width
  is the sum of the rescaled widths of the uploads, which it holds side by side in input
  order. And the function does return a composite for a non-empty list of uploads that
  decode and a positive target height, when the sizes are in the range of C \<^verbatim>\<open>int\<close>s and
  the library performs the calls it is asked for (font loading may fail with \<^verbatim>\<open>IOError\<close>).
\<close>

theorem composite_size:
  "(\<forall>c w'. process_and_combine_images lib files t w = (Inr (Some (PNG c)), w') \<longrightarrow>
      cheight c = t \<and>
      (\<exists>ns. list_all2 (rescaled_width lib t) files ns \<and>
            cwidth c = sum_list ns \<and> map (width \<circ> fst) (pastes c) = ns)) \<and>
   (files \<noteq> [] \<and> 0 < t \<and> t < 2 ^ 31 \<and> (\<forall>f\<in>set files. processable lib t f) \<and>
    (\<forall>e. raises lib (Truetype ''arial.ttf'' (t div 10)) = Some e \<longrightarrow> isinstance_IOError e) \<and>
    (\<forall>W\<ge>0. raises lib (New (W, t)) = None \<and> raises lib (Save (W, t)) = None) \<longrightarrow>
    (\<exists>c w'. process_and_combine_images lib files t w = (Inr (Some (PNG c)), w')))"
proof (intro conjI allI impI)
  fix c w'
  assume "process_and_combine_images lib files t w = (Inr (Some (PNG c)), w')"
  then show "cheight c = t" and
    "\<exists>ns. list_all2 (rescaled_width lib t) files ns \<and>
          cwidth c = sum_list ns \<and> map (width \<circ> fst) (pastes c) = ns"
    by (simp_all add: composite_dims)
next
  assume "files \<noteq> [] \<and> 0 < t \<and> t < 2 ^ 31 \<and> (\<forall>f\<in>set files. processable lib t f) \<and>
    (\<forall>e. raises lib (Truetype ''arial.ttf'' (t div 10)) = Some e \<longrightarrow> isinstance_IOError e) \<and>
    (\<forall>W\<ge>0. raises lib (New (W, t)) = None \<and> raises lib (Save (W, t)) = None)"
  with process_total [of files t lib w]
  show "\<exists>c w'. process_and_combine_images lib files t w = (Inr (Some (PNG c)), w')"
    by blast
qed

theorem composite_size_witness:
  "case process_and_combine_images (sample_pil True) sample_files 400 world0 of
     (Inr (Some (PNG c)), w) \<Rightarrow>
        cheight c = 400 \<and> cwidth c = 1400 \<and> map (width \<circ> fst) (pastes c) = [200, 1200]
   | _ \<Rightarrow> False"
proof -
  let ?lib = "sample_pil True"
  note t = composite_size [of ?lib sample_files 400 world0]
  have "sample_files \<noteq> []" and "(0::int) < 400" and "(400::int) < 2 ^ 31"
    by (simp_all add: sample_files_def)
  moreover have "\<forall>f\<in>set sample_files. processable ?lib 400 f"
    by (simp add: sample_files_def sample_processable del: One_nat_def)
  moreover have "\<forall>e. raises ?lib (Truetype ''arial.ttf'' (400 div 10)) = Some e
                    \<longrightarrow> isinstance_IOError e"
    by (simp add: sample_pil_def)
  moreover have "\<forall>W\<ge>0. raises ?lib (New (W, 400)) = None \<and> raises ?lib (Save (W, 400)) = None"
    by (simp add: sample_pil_def)
  ultimately obtain c w' where
    r: "process_and_combine_images ?lib sample_files 400 world0 = (Inr (Some (PNG c)), w')"
    using conjunct2 [OF t] by blast
  with conjunct1 [OF t] obtain ns where
    h: "cheight c = 400" and l: "list_all2 (rescaled_width ?lib 400) sample_files ns"
    and s: "cwidth c = sum_list ns" and m: "map (width \<circ> fst) (pastes c) = ns"
    by blast
  from l have "ns = [200, 1200]"
    by (auto simp: sample_files_def list_all2_Cons1 rescaled_width_def sample_sizes sample_new_widths
             simp del: One_nat_def)
  with h s m show ?thesis unfolding r by simp
qed

text \<open>
  Claim C2, amended. In a call that returns a composite, the image made from an upload has
  the target height, and its width is \<^verbatim>\<open>int(width * (target_height / height))\<close>, the
  product of doubles truncated: for sizes and target heights below \<open>2 ^ 16\<close> that is the
  exact quotient \<open>width * target_height / height\<close> rounded down, or one less than the
  quotient in some cases where the division is exact. It is not rounded to the nearest
  integer.
\<close>

theorem rescaled_size:
  assumes "process_and_combine_images lib files t w = (Inr (Some (PNG c)), w')"
    and "k < length files" and "decoded_size lib (files ! k) = (iw, ih)"
    and "0 \<le> iw" and "iw < 2 ^ 16" and "0 < ih" and "ih < 2 ^ 16" and "0 < t" and "t < 2 ^ 16"
  shows "height (fst (pastes c ! k)) = t \<and>
    new_width iw ih t = Inr (width (fst (pastes c ! k))) \<and>
    (width (fst (pastes c ! k)) = iw * t div ih \<or>
     ih dvd iw * t \<and> width (fst (pastes c ! k)) = iw * t div ih - 1)"
proof -
  from assms(1) obtain font fs w1 imgs where
    l: "label_images lib font fs t 0 files w1 = (Inr imgs, w')" and
    n: "length imgs = length files" and p: "map fst (pastes c) = imgs"
    by (rule process_nth)
  from p n assms(2) have i: "fst (pastes c ! k) = imgs ! k" by (metis length_map nth_map)
  from list_all2_nthD [OF label_images_all [OF l] assms(2)] assms(3)
  have "height (imgs ! k) = t" and "new_width iw ih t = Inr (width (imgs ! k))"
    by simp_all
  with new_width_floor [OF assms(4-9)] i show ?thesis by auto
qed

theorem rescaled_width_round_counterexample:
  "new_width 7 1600 400 = Inr 1 \<and> round (7 * 400 / 1600 :: rat) = (2::int)"
proof
  show "new_width 7 1600 400 = Inr 1" by code_simp
  have "(7 * 400 / 1600 + 1 / 2 :: rat) = 9 / 4" by simp
  moreover have "\<lfloor>9 / 4 :: rat\<rfloor> = 2" by (simp add: floor_unique)
  ultimately show "round (7 * 400 / 1600 :: rat) = (2::int)" by (simp only: round_def)
qed

theorem rescaled_size_witness:
  "case process_and_combine_images (sample_pil True) sample_files 400 world0 of
     (Inr (Some (PNG c)), w) \<Rightarrow>
        height (fst (pastes c ! 1)) = 400 \<and> width (fst (pastes c ! 1)) = 1200 \<and>
        300 * 400 div 100 = (1200::int)
   | _ \<Rightarrow> False"
proof -
  from sample_files_run obtain c w' where
    r: "process_and_combine_images (sample_pil True) sample_files 400 world0 =
          (Inr (Some (PNG c)), w')" by blast
  have k: "1 < length sample_files" by (simp add: sample_files_def)
  have d: "decoded_size (sample_pil True) (sample_files ! 1) = (300, 100)"
    by (simp add: sample_files_def sample_sizes del: One_nat_def)
  from rescaled_size [OF r k d]
  have "height (fst (pastes c ! 1)) = 400"
    and "new_width 300 100 400 = Inr (width (fst (pastes c ! 1)))" by simp_all
  then show ?thesis unfolding r by (simp add: sample_new_widths)
qed

text \<open>
  Claim C3. In a call that returns a composite, the image pasted at the 1-indexed position
  \<open>i\<close> carries exactly one label, \<open>to_letter i\<close>: the letter \<open>chr (ord 'a' + i - 1)\<close> for
  \<open>1 \<le> i \<le> 5\<close>, and \<^verbatim>\<open>str(i)\<close> otherwise, a string of decimal digits that denotes \<open>i\<close>.
\<close>

theorem label_of_position:
  assumes "process_and_combine_images lib files t w = (Inr (Some (PNG c)), w')"
    and "1 \<le> i" and "i \<le> int (length files)"
  shows "map text_str (texts (fst (pastes c ! nat (i - 1)))) = [to_letter i]
    \<and> to_letter i = (if i \<le> 5 then [char_of (of_char CHR ''a'' + i - 1)] else py_str i)
    \<and> (5 < i \<longrightarrow> decimal_of (to_letter i) = i)"
proof -
  from assms(1) obtain font fs w1 imgs where
    l: "label_images lib font fs t 0 files w1 = (Inr imgs, w')" and
    c: "c = paste_all \<lparr>cwidth = sum_list (map width imgs), cheight = t,
                       background = ''white'', pastes = []\<rparr> 0 imgs"
    by (rule process_Inr)
  from assms(2,3) have k: "nat (i - 1) < length files" by simp
  with label_images_length [OF l] have k': "nat (i - 1) < length imgs" by simp
  from label_images_texts [OF l k] assms(2)
  have "map text_str (texts (imgs ! nat (i - 1))) = [to_letter i]" by auto
  with c paste_all_nth [OF k'] have "map text_str (texts (fst (pastes c ! nat (i - 1)))) = [to_letter i]"
    by simp
  moreover from assms(2) have "to_letter i = (if i \<le> 5 then [char_of (of_char CHR ''a'' + i - 1)] else py_str i)"
    by (simp add: to_letter_cases)
  moreover have "5 < i \<longrightarrow> decimal_of (to_letter i) = i"
    by (simp add: to_letter_def decimal_of_py_str)
  ultimately show ?thesis by simp
qed

theorem label_of_position_witness:
  "case process_and_combine_images (sample_pil True) six_files 400 world0 of
     (Inr (Some (PNG c)), w) \<Rightarrow>
        map text_str (texts (fst (pastes c ! 1))) = [''b''] \<and>
        map text_str (texts (fst (pastes c ! 5))) = [''6''] \<and> decimal_of ''6'' = 6
   | _ \<Rightarrow> False"
proof -
  from six_files_run obtain c w where
    r: "process_and_combine_images (sample_pil True) six_files 400 world0 = (Inr (Some (PNG c)), w)"
    by blast
  have l: "length six_files = 6" by (simp add: six_files_def)
  have a: "to_letter 2 = ''b''" by code_simp
  have b: "to_letter 6 = ''6''" by code_simp
  from label_of_position [OF r, of 2] l
  have "map text_str (texts (fst (pastes c ! nat (2 - 1)))) = [to_letter 2]" by simp
  with a have x: "map text_str (texts (fst (pastes c ! 1))) = [''b'']" by simp
  have "(1::int) \<le> 6" and "6 \<le> int (length six_files)" using l by simp_all
  note t = label_of_position [OF r this]
  from t have "map text_str (texts (fst (pastes c ! nat (6 - 1)))) = [to_letter 6]"
    by (rule conjunct1)
  moreover from conjunct2 [OF conjunct2 [OF t]] have "decimal_of (to_letter 6) = 6"
    by simp
  ultimately have "map text_str (texts (fst (pastes c ! nat (6 - 1)))) = [to_letter 6]"
    and "decimal_of (to_letter 6) = 6" .
  with b have y: "map text_str (texts (fst (pastes c ! 5))) = [''6'']"
    and z: "decimal_of ''6'' = 6" by simp_all
  show ?thesis unfolding r using x y z by simp
qed

text \<open>
  Claim C4, amended. If an upload fails to decode, the call returns no bytes: it ends with
  an exception. When the font setup and the uploads before it went through, the exception
  is the one that \<^verbatim>\<open>Image.open\<close> raised for that upload. It is raised from the upload alone
  and is not wrapped: it does not say at which position the upload was.
\<close>

theorem decode_failure_aborts:
  assumes "f \<in> set files" and "raises lib (Open f) = Some e"
  shows "(\<exists>e'. fst (process_and_combine_images lib files t w) = Inl e') \<and>
    (\<forall>pre post font fs w1 imgs w2.
       files = pre @ f # post \<longrightarrow> font_setup lib t w = (Inr (font, fs), w1) \<longrightarrow>
       label_images lib font fs t 0 pre w1 = (Inr imgs, w2) \<longrightarrow>
       process_and_combine_images lib files t w = (Inl e, w2))"
proof
  obtain r w' where r: "process_and_combine_images lib files t w = (r, w')"
    by (cases "process_and_combine_images lib files t w")
  show "\<exists>e'. fst (process_and_combine_images lib files t w) = Inl e'"
  proof (cases r)
    case (Inl e')
    with r show ?thesis by simp
  next
    case (Inr x)
    show ?thesis
    proof (cases x)
      case None
      with r Inr have "files = []" by (simp add: process_Inr_None)
      with assms(1) show ?thesis by simp
    next
      case (Some png)
      obtain c where "png = PNG c" by (cases png)
      with r Inr Some have "process_and_combine_images lib files t w = (Inr (Some (PNG c)), w')"
        by simp
      then obtain font fs w1 imgs where
        "label_images lib font fs t 0 files w1 = (Inr imgs, w')" by (rule process_Inr)
      from label_images_all [OF this] assms(1) have "raises lib (Open f) = None"
        by (auto simp: list_all2_conv_all_nth in_set_conv_nth)
      with assms(2) show ?thesis by simp
    qed
  qed
next
  show "\<forall>pre post font fs w1 imgs w2.
       files = pre @ f # post \<longrightarrow> font_setup lib t w = (Inr (font, fs), w1) \<longrightarrow>
       label_images lib font fs t 0 pre w1 = (Inr imgs, w2) \<longrightarrow>
       process_and_combine_images lib files t w = (Inl e, w2)"
  proof (intro allI impI)
    fix pre post font fs w1 imgs w2
    assume a: "files = pre @ f # post" and b: "font_setup lib t w = (Inr (font, fs), w1)"
      and c: "label_images lib font fs t 0 pre w1 = (Inr imgs, w2)"
    from label_images_append [OF c, of "f # post"] label_image_not_open [OF assms(2)]
    have "label_images lib font fs t 0 files w1 = (Inl e, w2)" by (simp add: a)
    with a b show "process_and_combine_images lib files t w = (Inl e, w2)"
      by (simp add: process_and_combine_images_def)
  qed
qed

theorem decode_error_position_counterexample:
  "fst (process_and_combine_images (sample_pil True) [ [1, 2, 3]] 400 world0) =
     Inl (UnidentifiedImageError [1, 2, 3]) \<and>
   fst (process_and_combine_images (sample_pil True) [ [0, 100, 0, 200], [1, 2, 3]] 400 world0) =
     Inl (UnidentifiedImageError [1, 2, 3])"
  by code_simp

theorem decode_failure_aborts_witness:
  "[1, 2, 3] \<in> set [ [0, 100, 0, 200], [1, 2, 3]] \<and>
   raises (sample_pil True) (Open [1, 2, 3]) = Some (UnidentifiedImageError [1, 2, 3]) \<and>
   fst (process_and_combine_images (sample_pil True) [ [0, 100, 0, 200], [1, 2, 3]] 400 world0) =
     Inl (UnidentifiedImageError [1, 2, 3])"
proof -
  let ?lib = "sample_pil True"
  let ?font = "\<lparr>oid = 0, face = FreeType ''arial.ttf'' 40\<rparr>"
  let ?w1 = "\<lparr>next_oid = 1, warnings = []\<rparr>"
  have m: "[1, 2, 3] \<in> set [ [0, 100, 0, 200], [1, 2, 3 :: nat]]" by simp
  have o: "raises ?lib (Open [1, 2, 3]) = Some (UnidentifiedImageError [1, 2, 3])"
    by (simp add: sample_pil_def)
  have f: "font_setup ?lib 400 world0 = (Inr (?font, 40), ?w1)"
    by (simp add: font_setup_eq sample_pil_def world0_def)
  have "\<forall>f\<in>set [ [0, 100, 0, 200]]. processable ?lib 400 f" by (simp add: sample_processable)
  from label_images_processable [OF _ _ _ _ _ this, of ?font ?w1 40 0] obtain imgs w2 where
    l: "label_images ?lib ?font 40 400 0 [ [0, 100, 0, 200]] ?w1 = (Inr imgs, w2)" by auto
  from decode_failure_aborts [OF m o, of 400 world0] f l
  have "process_and_combine_images ?lib [ [0, 100, 0, 200], [1, 2, 3]] 400 world0 =
          (Inl (UnidentifiedImageError [1, 2, 3]), w2)"
    by (metis append_Cons append_Nil)
  with m o show ?thesis by simp
qed

text \<open>
  Claim C5. For the empty list of uploads the function returns \<^verbatim>\<open>None\<close>, for every target
  height: it raises nothing, shows no warning and allocates nothing.
\<close>

theorem empty_input:
  "process_and_combine_images lib [] target_height w = (Inr None, w)"
  by (simp add: process_and_combine_images_def)

text \<open>
  Claim C6. In a call that returns a composite, the pastes are one per upload, in input
  order, each at the x-offset that is the sum of the widths of the images pasted before it
  (0 for the first) and at y-offset 0, and the width of the composite is the sum of all
  the widths: the images tile the composite from left to right, with no gap and no
  overlap.
\<close>

theorem paste_offsets:
  assumes "process_and_combine_images lib files t w = (Inr (Some (PNG c)), w')"
  shows "length (pastes c) = length files
    \<and> (\<forall>k<length files.
          pixels_of (fst (pastes c ! k)) = files ! k \<and>
          snd (pastes c ! k) = (sum_list (map (width \<circ> fst) (take k (pastes c))), 0))
    \<and> cwidth c = sum_list (map (width \<circ> fst) (pastes c))"
proof -
  from assms(1) obtain font fs w1 imgs where
    l: "label_images lib font fs t 0 files w1 = (Inr imgs, w')" and
    c: "c = paste_all \<lparr>cwidth = sum_list (map width imgs), cheight = t,
                       background = ''white'', pastes = []\<rparr> 0 imgs"
    by (rule process_Inr)
  note n = label_images_length [OF l]
  from c have p: "map fst (pastes c) = imgs"
    by (simp add: paste_all_pastes length_offsets)
  then have len: "length (pastes c) = length files" using n by (metis length_map)
  have w: "cwidth c = sum_list (map (width \<circ> fst) (pastes c))"
    using c p by (simp add: paste_all_fields flip: map_map)
  have "pixels_of (fst (pastes c ! k)) = files ! k \<and>
        snd (pastes c ! k) = (sum_list (map (width \<circ> fst) (take k (pastes c))), 0)"
    if k: "k < length files" for k
  proof -
    from k n have k': "k < length imgs" by simp
    from label_images_all [OF l] k have "pixels_of (imgs ! k) = files ! k"
      by (simp add: list_all2_conv_all_nth)
    moreover have "take k imgs = map fst (take k (pastes c))"
      by (simp only: take_map p [symmetric])
    ultimately show ?thesis using c paste_all_nth [OF k'] by (simp flip: map_map)
  qed
  with len w show ?thesis by blast
qed

theorem paste_offsets_witness:
  "case process_and_combine_images (sample_pil True) sample_files 400 world0 of
     (Inr (Some (PNG c)), w) \<Rightarrow>
        length (pastes c) = 2 \<and>
        pixels_of (fst (pastes c ! 0)) = [0, 100, 0, 200] \<and> snd (pastes c ! 0) = (0, 0) \<and>
        pixels_of (fst (pastes c ! 1)) = [1, 44, 0, 100] \<and>
        snd (pastes c ! 1) = (width (fst (pastes c ! 0)), 0) \<and>
        cwidth c = width (fst (pastes c ! 0)) + width (fst (pastes c ! 1))
   | _ \<Rightarrow> False"
proof -
  from sample_files_run obtain c w where
    r: "process_and_combine_images (sample_pil True) sample_files 400 world0 = (Inr (Some (PNG c)), w)"
    by blast
  have l: "length sample_files = 2" by (simp add: sample_files_def)
  from paste_offsets [OF r] l have n: "length (pastes c) = 2"
    and k: "\<forall>k<2. pixels_of (fst (pastes c ! k)) = sample_files ! k \<and>
          snd (pastes c ! k) = (sum_list (map (width \<circ> fst) (take k (pastes c))), 0)"
    and s: "cwidth c = sum_list (map (width \<circ> fst) (pastes c))" by simp_all
  from n obtain p q where pq: "pastes c = [p, q]"
    by (cases "pastes c"; simp) (metis length_0_conv length_Suc_conv)
  from k have "pixels_of (fst (pastes c ! 0)) = sample_files ! 0 \<and>
          snd (pastes c ! 0) = (sum_list (map (width \<circ> fst) (take 0 (pastes c))), 0)"
     and "pixels_of (fst (pastes c ! 1)) = sample_files ! 1 \<and>
          snd (pastes c ! 1) = (sum_list (map (width \<circ> fst) (take 1 (pastes c))), 0)"
    by simp_all
  with s pq have "length (pastes c) = 2 \<and>
        pixels_of (fst (pastes c ! 0)) = [0, 100, 0, 200] \<and> snd (pastes c ! 0) = (0, 0) \<and>
        pixels_of (fst (pastes c ! 1)) = [1, 44, 0, 100] \<and>
        snd (pastes c ! 1) = (width (fst (pastes c ! 0)), 0) \<and>
        cwidth c = width (fst (pastes c ! 0)) + width (fst (pastes c ! 1))"
    by (simp add: sample_files_def)
  then show ?thesis unfolding r by simp
qed

text \<open>
  Claim C7. The result of a call (the encoded composite, \<^verbatim>\<open>None\<close>, or the exception) is the
  same from any two starting worlds: it depends on the uploads, the target height and the
  library only, and not on the warnings shown before or on the objects allocated before.
  In particular a second run, which starts in the world the first run left, returns what
  the first returned.
\<close>

theorem rerun_same_output:
  "fst (process_and_combine_images lib files t w) = fst (process_and_combine_images lib files t v)"
proof (cases "files = []")
  case True
  then show ?thesis by (simp add: process_and_combine_images_def)
next
  case False
  obtain r1 w1 where a: "font_setup lib t w = (r1, w1)" by (cases "font_setup lib t w")
  show ?thesis
  proof (cases r1)
    case (Inl e)
    with a font_setup_Inl [of lib t w e w1 v] False show ?thesis
      by (simp add: process_and_combine_images_def)
  next
    case (Inr p)
    obtain font fs where p: "p = (font, fs)" by (cases p)
    from a Inr p have a': "font_setup lib t w = (Inr (font, fs), w1)" by simp
    from font_setup_Inr(1) [OF a'] have o: "oid font < next_oid w1" .
    from font_setup_Inr(2) [OF a', where v = v] obtain font' v1 where
      b: "font_setup lib t v = (Inr (font', fs), v1)" and f: "face font' = face font"
      and o': "oid font' < next_oid v1"
      by auto
    from label_images_indep [OF o o', of lib fs t 0 files] f
    have l: "fst (label_images lib font fs t 0 files w1) = fst (label_images lib font' fs t 0 files v1)"
      by simp
    obtain r2 w2 where c: "label_images lib font fs t 0 files w1 = (r2, w2)"
      by (cases "label_images lib font fs t 0 files w1")
    obtain r3 v2 where d: "label_images lib font' fs t 0 files v1 = (r3, v2)"
      by (cases "label_images lib font' fs t 0 files v1")
    from l c d have "r3 = r2" by simp
    with a b c d Inr p False show ?thesis
      by (simp add: process_and_combine_images_def Let_def split: sum.splits option.splits)
  qed
qed

text \<open>
  Claim C8, amended. The font is requested at size \<^verbatim>\<open>int(target_height * 0.1)\<close>, which is
  \<open>target_height div 10\<close> (rounded down, not to the nearest integer). If the library loads
  it, that font and that size are used and nothing is shown. If loading raises \<^verbatim>\<open>IOError\<close>,
  the default font is used with \<^verbatim>\<open>font_size = 18\<close>, one warning is shown and nothing is
  raised. Any other exception of the loader is raised to the caller.
\<close>

theorem font_size_and_fallback:
  assumes "0 < t" and "t < 2 ^ 31"
  shows "font_setup lib t w =
    (case raises lib (Truetype ''arial.ttf'' (t div 10)) of
       None \<Rightarrow> (Inr (\<lparr>oid = next_oid w, face = FreeType ''arial.ttf'' (t div 10)\<rparr>, t div 10),
                 w\<lparr>next_oid := Suc (next_oid w)\<rparr>)
     | Some e \<Rightarrow>
         if isinstance_IOError e
         then (Inr (\<lparr>oid = next_oid w, face = DefaultFont\<rparr>, 18),
               w\<lparr>next_oid := Suc (next_oid w),
                 warnings := warnings w @ [''Arial font not found. Using default font for labels.'']\<rparr>)
         else (Inl e, w))"
  using assms by (intro font_setup_eq) simp_all

theorem font_size_round_counterexample:
  "fst (font_setup (sample_pil True) 19 world0) =
     Inr (\<lparr>oid = 0, face = FreeType ''arial.ttf'' 1\<rparr>, 1) \<and>
   round (1 / 10 * 19 :: rat) = (2::int)"
proof
  show "fst (font_setup (sample_pil True) 19 world0) =
     Inr (\<lparr>oid = 0, face = FreeType ''arial.ttf'' 1\<rparr>, 1)"
    by (simp add: font_setup_eq sample_pil_def world0_def)
  have "(1 / 10 * 19 + 1 / 2 :: rat) = 12 / 5" by simp
  moreover have "\<lfloor>12 / 5 :: rat\<rfloor> = 2" by (simp add: floor_unique)
  ultimately show "round (1 / 10 * 19 :: rat) = (2::int)" by (simp only: round_def)
qed

theorem font_size_and_fallback_witness:
  "font_setup (sample_pil True) 400 world0 =
     (Inr (\<lparr>oid = 0, face = FreeType ''arial.ttf'' 40\<rparr>, 40), \<lparr>next_oid = 1, warnings = []\<rparr>) \<and>
   font_setup (sample_pil False) 400 world0 =
     (Inr (\<lparr>oid = 0, face = DefaultFont\<rparr>, 18),
      \<lparr>next_oid = 1, warnings = [''Arial font not found. Using default font for labels.'']\<rparr>)"
  using font_size_and_fallback [of 400 "sample_pil True" world0]
    font_size_and_fallback [of 400 "sample_pil False" world0]
  by (simp add: sample_pil_def world0_def)

text \<open>
  Claim C9, at an input where the code departs from it: one \<open>100 \<times> 200\<close> upload, target
  height 400, Arial not installed. The label is drawn with the default font at x = 10 and
  y = 373, that is \<open>400 - 18 * 1.5\<close>, and not at \<open>400 - 25 = 375\<close>.
\<close>

theorem fallback_label_position:
  "process_and_combine_images (sample_pil False) [ [0, 100, 0, 200]] 400 world0 =
    (Inr (Some (PNG \<lparr>cwidth = 200, cheight = 400, background = ''white'',
       pastes =
         [(\<lparr>width = 200, height = 400, pixels_of = [0, 100, 0, 200],
            texts = [\<lparr>text_x = 10, text_y = PyFloat (Finite 373), text_str = ''a'',
                      text_fill = ''black'', text_font = DefaultFont\<rparr>]\<rparr>, 0, 0)]\<rparr>)),
     \<lparr>next_oid = 2,
       warnings = [''Arial font not found. Using default font for labels.'']\<rparr>)"
  by code_simp

text \<open>
  Claim C10, amended. An upload with \<open>width * target_height < height\<close> gets the new width
  0, and the library is asked to resize it to width 0. Where the library refuses that
  resize, as Pillow does, the call returns no composite: it ends with an exception, which
  is the one the library raised for the resize when the font setup and the uploads before
  it went through.
\<close>

theorem zero_width_request:
  assumes "f \<in> set files" and "decoded_size lib f = (iw, ih)"
    and "0 \<le> iw" and "iw < 2 ^ 16" and "0 < ih" and "ih < 2 ^ 16" and "0 < t" and "t < 2 ^ 16"
    and "iw * t < ih" and "raises lib (Resize (iw, ih) (0, t)) = Some e"
  shows "new_width iw ih t = Inr 0 \<and>
    (\<exists>e'. fst (process_and_combine_images lib files t w) = Inl e') \<and>
    (\<forall>pre post font fs w1 imgs w2.
       files = pre @ f # post \<longrightarrow> raises lib (Open f) = None \<longrightarrow>
       font_setup lib t w = (Inr (font, fs), w1) \<longrightarrow>
       label_images lib font fs t 0 pre w1 = (Inr imgs, w2) \<longrightarrow>
       process_and_combine_images lib files t w = (Inl e, w2))"
proof (intro conjI)
  from assms(3,7,9) have "iw * t div ih = 0" by (simp add: div_pos_pos_trivial)
  with new_width_floor [OF assms(3-8)] show nw: "new_width iw ih t = Inr 0" by auto
  obtain r w' where r: "process_and_combine_images lib files t w = (r, w')"
    by (cases "process_and_combine_images lib files t w")
  show "\<exists>e'. fst (process_and_combine_images lib files t w) = Inl e'"
  proof (cases r)
    case (Inl e')
    with r show ?thesis by simp
  next
    case (Inr x)
    show ?thesis
    proof (cases x)
      case None
      with r Inr have "files = []" by (simp add: process_Inr_None)
      with assms(1) show ?thesis by simp
    next
      case (Some png)
      obtain c where "png = PNG c" by (cases png)
      with r Inr Some have "process_and_combine_images lib files t w = (Inr (Some (PNG c)), w')"
        by simp
      then obtain font fs w1 imgs where
        l: "label_images lib font fs t 0 files w1 = (Inr imgs, w')" by (rule process_Inr)
      from assms(1) obtain k where k: "k < length files" and fk: "files ! k = f"
        by (auto simp: in_set_conv_nth)
      note h = list_all2_nthD [OF label_images_all [OF l] k]
      from h fk assms(2) have "new_width iw ih t = Inr (width (imgs ! k))" by simp
      with nw have w0: "width (imgs ! k) = 0" by simp
      from h fk assms(2) have "raises lib (Resize (iw, ih) (width (imgs ! k), t)) = None" by simp
      with w0 assms(10) show ?thesis by simp
    qed
  qed
  show "\<forall>pre post font fs w1 imgs w2.
       files = pre @ f # post \<longrightarrow> raises lib (Open f) = None \<longrightarrow>
       font_setup lib t w = (Inr (font, fs), w1) \<longrightarrow>
       label_images lib font fs t 0 pre w1 = (Inr imgs, w2) \<longrightarrow>
       process_and_combine_images lib files t w = (Inl e, w2)"
  proof (intro allI impI)
    fix pre post font fs w1 imgs w2
    assume a: "files = pre @ f # post" and o: "raises lib (Open f) = None"
      and b: "font_setup lib t w = (Inr (font, fs), w1)"
      and c: "label_images lib font fs t 0 pre w1 = (Inr imgs, w2)"
    from o assms(2,10) nw have "label_image lib font fs t (length pre) f w2 = (Inl e, w2)"
      by (simp add: label_image_def)
    with label_images_append [OF c, of "f # post"]
    have "label_images lib font fs t 0 files w1 = (Inl e, w2)" by (simp add: a)
    with a b show "process_and_combine_images lib files t w = (Inl e, w2)"
      by (simp add: process_and_combine_images_def)
  qed
qed

theorem zero_width_slot_counterexample:
  "new_width 1 1000 400 = Inr 0 \<and>
   fst (process_and_combine_images (sample_pil True) [ [1, 44, 0, 100], [0, 1, 3, 232]] 400 world0) =
     Inl ValueError"
  by code_simp

theorem zero_width_request_witness:
  "[0, 1, 3, 232] \<in> set thin_files \<and>
   decoded_size (sample_pil True) [0, 1, 3, 232] = (1, 1000) \<and>
   raises (sample_pil True) (Resize (1, 1000) (0, 400)) = Some ValueError \<and>
   new_width 1 1000 400 = Inr 0 \<and>
   fst (process_and_combine_images (sample_pil True) thin_files 400 world0) = Inl ValueError"
proof -
  let ?lib = "sample_pil True"
  let ?font = "\<lparr>oid = 0, face = FreeType ''arial.ttf'' 40\<rparr>"
  let ?w1 = "\<lparr>next_oid = 1, warnings = []\<rparr>"
  have m: "[0, 1, 3, 232] \<in> set thin_files" by (simp add: thin_files_def)
  have d: "decoded_size ?lib [0, 1, 3, 232] = (1, 1000)" by (rule sample_sizes)
  have v: "raises ?lib (Resize (1, 1000) (0, 400)) = Some ValueError" by (rule sample_resizes)
  have o: "raises ?lib (Open [0, 1, 3, 232]) = None" by (rule sample_opens)
  have f: "font_setup ?lib 400 world0 = (Inr (?font, 40), ?w1)"
    by (simp add: font_setup_eq sample_pil_def world0_def)
  have "\<forall>f\<in>set [ [1, 44, 0, 100]]. processable ?lib 400 f"
    by (simp add: sample_processable del: One_nat_def)
  from label_images_processable [OF _ _ _ _ _ this, of ?font ?w1 40 0] obtain imgs w2 where
    l: "label_images ?lib ?font 40 400 0 [ [1, 44, 0, 100]] ?w1 = (Inr imgs, w2)" by auto
  have t: "thin_files = [ [1, 44, 0, 100]] @ [0, 1, 3, 232] # []" by (simp add: thin_files_def)
  note z = zero_width_request [OF m d _ _ _ _ _ _ _ v, of world0]
  have n: "new_width 1 1000 400 = Inr 0" using z by simp
  from z have "\<forall>pre post font fs w1 imgs w2.
       thin_files = pre @ [0, 1, 3, 232] # post \<longrightarrow> raises ?lib (Open [0, 1, 3, 232]) = None \<longrightarrow>
       font_setup ?lib 400 world0 = (Inr (font, fs), w1) \<longrightarrow>
       label_images ?lib font fs 400 0 pre w1 = (Inr imgs, w2) \<longrightarrow>
       process_and_combine_images ?lib thin_files 400 world0 = (Inl ValueError, w2)"
    by simp
  with t o f l have "process_and_combine_images ?lib thin_files 400 world0 = (Inl ValueError, w2)"
    by blast
  with m d v n show ?thesis by simp
qed

end
